theory Spec2Isabelle
  imports Complex_Main
begin

section \<open>Configuration constants\<close>

text \<open>
  The entries of the global object \<open>CFG\<close> that the physics reads. JavaScript numbers
  are IEEE doubles; the development idealises them as the reals, so every statement
  below about positions and velocities is a statement of exact real arithmetic. Grid
  indices and dimensions are integers.
\<close>

definition CFG_ballRadiusRatio :: real where
  "CFG_ballRadiusRatio = 0.35"

definition CFG_friction :: real where
  "CFG_friction = 0.96"

definition CFG_acceleration :: real where
  "CFG_acceleration = 0.5"

section \<open>The maze and its grid\<close>

text \<open>
  The only exception the source can raise is the \<open>TypeError\<close> of reading or writing a
  property of \<open>undefined\<close>: \<open>this.grid[r][c]\<close> when \<open>this.grid[r]\<close> does not exist, or
  \<open>dir.r\<close> when \<open>dir\<close> is an array element that does not exist.
\<close>

datatype error = TypeError

text \<open>
  A JavaScript array is a map from indices to elements; reading an index that was
  never written gives \<open>undefined\<close> (\<open>None\<close>), writing any index stores the element.
  The grid is an array of rows, a row an array of the numbers 1 (wall) and 0 (path).
\<close>

type_synonym row = "int \<rightharpoonup> nat"

type_synonym grid = "int \<rightharpoonup> row"

abbreviation WALL :: nat where
  "WALL \<equiv> 1"

abbreviation PATH :: nat where
  "PATH \<equiv> 0"

text \<open>
  \<open>class Maze\<close>. The object literals \<open>{x: .., y: ..}\<close> of \<open>start\<close> and \<open>goal\<close> are pairs
  \<open>(x, y)\<close>; the stack entries and directions \<open>{r: .., c: ..}\<close> are pairs \<open>(r, c)\<close>.
\<close>

record Maze =
  cols :: int
  rows :: int
  grid :: grid
  start :: "int \<times> int"
  goal :: "int \<times> int"

text \<open>The expression \<open>g[r][c]\<close>: a \<open>TypeError\<close> when the row \<open>g[r]\<close> is undefined.\<close>

definition read_cell :: "grid \<Rightarrow> int \<Rightarrow> int \<Rightarrow> error + nat option" where
  "read_cell g r c = (case g r of None \<Rightarrow> Inl TypeError | Some rw \<Rightarrow> Inr (rw c))"

text \<open>The assignment \<open>g[r][c] = v\<close>.\<close>

definition write_cell :: "grid \<Rightarrow> int \<Rightarrow> int \<Rightarrow> nat \<Rightarrow> error + grid" where
  "write_cell g r c v =
     (case g r of None \<Rightarrow> Inl TypeError | Some rw \<Rightarrow> Inr (g(r \<mapsto> rw(c \<mapsto> v))))"

text \<open>
  The first loop nest of \<open>generate\<close>: \<open>this.grid[r] = []\<close>, then every column of the row
  is set to 1.
\<close>

definition init_row :: "int \<Rightarrow> row" where
  "init_row n = fold (\<lambda>c rw. rw(c \<mapsto> WALL)) [0..n - 1] Map.empty"

definition init_grid :: "Maze \<Rightarrow> Maze" where
  "init_grid m = m\<lparr>grid := fold (\<lambda>r g. g(r \<mapsto> init_row (cols m))) [0..rows m - 1] (grid m)\<rparr>"

definition directions :: "(int \<times> int) list" where
  "directions = [(-2, 0), (2, 0), (0, -2), (0, 2)]"

text \<open>
  The predicate of \<open>directions.filter\<close>: \<open>&&\<close> evaluates \<open>this.grid[nextR][nextC]\<close> only
  when the four comparisons hold.
\<close>

definition valid_dir :: "Maze \<Rightarrow> int \<times> int \<Rightarrow> int \<times> int \<Rightarrow> error + bool" where
  "valid_dir m current dir =
     (let nextR = fst current + fst dir;
          nextC = snd current + snd dir
      in if nextR > 0 \<and> nextR < rows m - 1 \<and> nextC > 0 \<and> nextC < cols m - 1 then
           (case read_cell (grid m) nextR nextC of
              Inl e \<Rightarrow> Inl e
            | Inr v \<Rightarrow> Inr (v = Some WALL))
         else Inr False)"

fun filter_dirs :: "Maze \<Rightarrow> int \<times> int \<Rightarrow> (int \<times> int) list \<Rightarrow> error + (int \<times> int) list" where
  "filter_dirs m current [] = Inr []"
| "filter_dirs m current (dir # ds) =
     (case valid_dir m current dir of
        Inl e \<Rightarrow> Inl e
      | Inr ok \<Rightarrow>
          (case filter_dirs m current ds of
             Inl e \<Rightarrow> Inl e
           | Inr rest \<Rightarrow> Inr (if ok then dir # rest else rest)))"

text \<open>
  One iteration of the \<open>while\<close> loop, for a stack that is not empty. The stack is a list
  whose head is the top \<open>stack[stack.length - 1]\<close>: \<open>push\<close> is cons, \<open>pop\<close> is the tail.
  The random source \<open>rnd\<close> gives the value of the \<open>i\<close>-th call of \<open>Math.random()\<close>; the
  counter \<open>i\<close> is part of the state. An index \<open>Math.floor(Math.random() * n)\<close> outside
  the array makes \<open>dir\<close> undefined, and \<open>dir.r\<close> raises.
\<close>

definition carve_step ::
  "(nat \<Rightarrow> real) \<Rightarrow> Maze \<Rightarrow> int \<times> int \<Rightarrow> (int \<times> int) list \<Rightarrow> nat
     \<Rightarrow> error + (Maze \<times> (int \<times> int) list \<times> nat)" where
  "carve_step rnd m current rest i =
     (case filter_dirs m current directions of
        Inl e \<Rightarrow> Inl e
      | Inr validDirs \<Rightarrow>
          if length validDirs > 0 then
            (let k = \<lfloor>rnd i * real (length validDirs)\<rfloor>
             in if 0 \<le> k \<and> k < int (length validDirs) then
                  (let dir = validDirs ! nat k;
                       nextR = fst current + fst dir;
                       nextC = snd current + snd dir;
                       wallR = fst current + fst dir div 2;
                       wallC = snd current + snd dir div 2
                   in case write_cell (grid m) wallR wallC PATH of
                        Inl e \<Rightarrow> Inl e
                      | Inr g1 \<Rightarrow>
                          (case write_cell g1 nextR nextC PATH of
                             Inl e \<Rightarrow> Inl e
                           | Inr g2 \<Rightarrow>
                               Inr (m\<lparr>grid := g2\<rparr>, (nextR, nextC) # current # rest, Suc i)))
                else Inl TypeError)
          else Inr (m, rest, i))"

text \<open>
  The number of interior cells that hold 1, for the termination of the loop: a carving
  step turns at least one of them into 0, a backtracking step shortens the stack.
\<close>

definition interior_walls :: "Maze \<Rightarrow> (int \<times> int) set" where
  "interior_walls m =
     {(r, c). 0 < r \<and> r < rows m - 1 \<and> 0 < c \<and> c < cols m - 1 \<and>
              read_cell (grid m) r c = Inr (Some WALL)}"

definition carve_measure :: "Maze \<times> (int \<times> int) list \<Rightarrow> nat" where
  "carve_measure = (\<lambda>(m, stack). 2 * card (interior_walls m) + length stack)"

lemma read_write_cell:
  "write_cell g r c v = Inr g' \<Longrightarrow>
   read_cell g' r' c' = (if r' = r \<and> c' = c then Inr (Some v) else read_cell g r' c')"
  by (auto simp: write_cell_def read_cell_def split: option.splits if_splits)

lemma filter_dirs_valid:
  "filter_dirs m current ds = Inr vs \<Longrightarrow> d \<in> set vs \<Longrightarrow> valid_dir m current d = Inr True \<and> d \<in> set ds"
  by (induction ds arbitrary: vs) (auto split: sum.splits if_splits)

lemma valid_dir_True:
  "valid_dir m current dir = Inr True \<Longrightarrow>
   (fst current + fst dir, snd current + snd dir) \<in> interior_walls m"
  by (auto simp: valid_dir_def interior_walls_def Let_def split: if_splits sum.splits)

lemma finite_interior_walls: "finite (interior_walls m)"
proof -
  have "interior_walls m \<subseteq> {0..rows m} \<times> {0..cols m}"
    by (auto simp: interior_walls_def)
  then show ?thesis by (rule finite_subset) simp
qed

lemma carve_step_push:
  assumes "carve_step rnd m current rest i = Inr (m', stack', i')"
    and "stack' \<noteq> rest"
  shows "\<exists>dir \<in> set directions. \<exists>g1.
           valid_dir m current dir = Inr True \<and>
           write_cell (grid m) (fst current + fst dir div 2) (snd current + snd dir div 2) PATH = Inr g1 \<and>
           write_cell g1 (fst current + fst dir) (snd current + snd dir) PATH = Inr (grid m') \<and>
           m' = m\<lparr>grid := grid m'\<rparr> \<and>
           stack' = (fst current + fst dir, snd current + snd dir) # current # rest \<and> i' = Suc i"
proof -
  obtain vs where vs: "filter_dirs m current directions = Inr vs"
    using assms(1) by (cases "filter_dirs m current directions") (auto simp: carve_step_def)
  have ne: "vs \<noteq> []" using assms vs by (auto simp: carve_step_def)
  let ?k = "\<lfloor>rnd i * real (length vs)\<rfloor>"
  have k: "0 \<le> ?k" "?k < int (length vs)"
    using assms(1) vs ne by (auto simp: carve_step_def Let_def split: if_splits)
  let ?dir = "vs ! nat ?k"
  have "?dir \<in> set vs" using k by (simp add: nat_less_iff)
  then have v: "valid_dir m current ?dir = Inr True" "?dir \<in> set directions"
    using filter_dirs_valid[OF vs] by auto
  show ?thesis
    using assms(1) vs ne k v
    by (intro bexI[of _ ?dir]) (auto simp: carve_step_def Let_def split: sum.splits)
qed

lemma carve_step_pop:
  assumes "carve_step rnd m current rest i = Inr (m', stack', i')"
    and "stack' = rest"
  shows "m' = m \<and> i' = i \<and> filter_dirs m current directions = Inr []"
  using assms
  by (auto simp: carve_step_def Let_def split: sum.splits if_splits)

lemma carve_step_decreases:
  assumes "carve_step rnd m current rest i = Inr (m', stack', i')"
  shows "carve_measure (m', stack') < carve_measure (m, current # rest)"
proof (cases "stack' = rest")
  case True
  then show ?thesis using carve_step_pop[OF assms True] by (simp add: carve_measure_def)
next
  case False
  from carve_step_push[OF assms False] obtain dir g1 where
    d: "valid_dir m current dir = Inr True"
    and w1: "write_cell (grid m) (fst current + fst dir div 2) (snd current + snd dir div 2) PATH = Inr g1"
    and w2: "write_cell g1 (fst current + fst dir) (snd current + snd dir) PATH = Inr (grid m')"
    and m': "m' = m\<lparr>grid := grid m'\<rparr>"
    and st: "stack' = (fst current + fst dir, snd current + snd dir) # current # rest"
    by blast
  let ?n = "(fst current + fst dir, snd current + snd dir)"
  have dims: "rows m' = rows m" "cols m' = cols m"
    by (subst m', simp)+
  have nin: "?n \<in> interior_walls m" using valid_dir_True[OF d] .
  have nout: "?n \<notin> interior_walls m'"
    by (simp add: interior_walls_def read_write_cell[OF w2])
  have sub: "interior_walls m' \<subseteq> interior_walls m"
    by (auto simp: interior_walls_def dims read_write_cell[OF w2] read_write_cell[OF w1] split: if_splits)
  have "interior_walls m' \<subset> interior_walls m" using sub nin nout by blast
  then have "card (interior_walls m') < card (interior_walls m)"
    by (rule psubset_card_mono[OF finite_interior_walls])
  then show ?thesis by (simp add: carve_measure_def st)
qed

text \<open>
  The \<open>while (stack.length > 0)\<close> loop. It terminates on every maze, stack and random
  source, so the function is total.
\<close>

function carve_loop :: "(nat \<Rightarrow> real) \<Rightarrow> Maze \<Rightarrow> (int \<times> int) list \<Rightarrow> nat \<Rightarrow> error + Maze" where
  "carve_loop rnd m [] i = Inr m"
| "carve_loop rnd m (current # rest) i =
     (case carve_step rnd m current rest i of
        Inl e \<Rightarrow> Inl e
      | Inr (m', stack', i') \<Rightarrow> carve_loop rnd m' stack' i')"
  by pat_completeness auto
termination
proof (relation "measure (\<lambda>(rnd, m, stack, i). carve_measure (m, stack))")
  show "wf (measure (\<lambda>(rnd, m, stack, i). carve_measure (m, stack)))" by simp
next
  fix rnd m current rest i x2 x y xa ya
  assume "carve_step rnd m current rest i = Inr x2" "(x, y) = x2" "(xa, ya) = y"
  then have "carve_step rnd m current rest i = Inr (x, xa, ya)" by simp
  from carve_step_decreases[OF this]
  show "((rnd, x, xa, ya), rnd, m, current # rest, i) \<in> measure (\<lambda>(rnd, m, stack, i). carve_measure (m, stack))"
    by simp
qed

text \<open>
  The last statement of \<open>generate\<close>: when the goal cell holds 1, the goal moves to the
  cell on its left if that one holds 0, else to the cell above if that one holds 0.
\<close>

definition relocate_goal :: "Maze \<Rightarrow> error + Maze" where
  "relocate_goal m =
     (let gx = fst (goal m); gy = snd (goal m)
      in case read_cell (grid m) gy gx of
           Inl e \<Rightarrow> Inl e
         | Inr v \<Rightarrow>
             if v = Some WALL then
               (case read_cell (grid m) gy (gx - 1) of
                  Inl e \<Rightarrow> Inl e
                | Inr l \<Rightarrow>
                    if l = Some PATH then Inr (m\<lparr>goal := (gx - 1, gy)\<rparr>)
                    else
                      (case read_cell (grid m) (gy - 1) gx of
                         Inl e \<Rightarrow> Inl e
                       | Inr u \<Rightarrow>
                           if u = Some PATH then Inr (m\<lparr>goal := (gx, gy - 1)\<rparr>)
                           else Inr m))
             else Inr m)"

text \<open>\<open>Maze.generate()\<close>, with \<open>startR = startC = 1\<close>.\<close>

definition generate :: "(nat \<Rightarrow> real) \<Rightarrow> Maze \<Rightarrow> error + Maze" where
  "generate rnd m =
     (let m0 = init_grid m
      in case write_cell (grid m0) 1 1 PATH of
           Inl e \<Rightarrow> Inl e
         | Inr g \<Rightarrow>
             (case carve_loop rnd (m0\<lparr>grid := g\<rparr>) [(1, 1)] 0 of
                Inl e \<Rightarrow> Inl e
              | Inr m1 \<Rightarrow> relocate_goal m1))"

text \<open>The constructor \<open>new Maze(cols, rows)\<close>. It checks nothing about its arguments.\<close>

definition Maze_new :: "(nat \<Rightarrow> real) \<Rightarrow> int \<Rightarrow> int \<Rightarrow> error + Maze" where
  "Maze_new rnd cs rs =
     generate rnd \<lparr>cols = cs, rows = rs, grid = Map.empty, start = (1, 1), goal = (cs - 2, rs - 2)\<rparr>"

section \<open>The ball\<close>

text \<open>
  \<open>class Ball\<close>: the fields \<open>x, y, vx, vy, radius\<close>, prefixed so that they do not
  capture the variable names of the theorems.
\<close>

record Ball =
  ball_x :: real
  ball_y :: real
  ball_vx :: real
  ball_vy :: real
  ball_radius :: real

text \<open>The constructor \<open>new Ball(x, y, radius)\<close>: the velocity starts at zero.\<close>

definition Ball_new :: "real \<Rightarrow> real \<Rightarrow> real \<Rightarrow> Ball" where
  "Ball_new px py rad =
     \<lparr>ball_x = px, ball_y = py, ball_vx = 0, ball_vy = 0, ball_radius = rad\<rparr>"

text \<open>
  \<open>Ball.update(ax, ay)\<close>: add the acceleration, multiply by the friction, then move.
  The statements are kept in the order of the source: the friction is applied to the
  velocity that already contains the acceleration of this frame.
\<close>

definition Ball_update :: "Ball \<Rightarrow> real \<Rightarrow> real \<Rightarrow> Ball" where
  "Ball_update b ax ay =
     (let b1 = b\<lparr>ball_vx := ball_vx b + ax\<rparr>;
          b2 = b1\<lparr>ball_vy := ball_vy b1 + ay\<rparr>;
          b3 = b2\<lparr>ball_vx := ball_vx b2 * CFG_friction\<rparr>;
          b4 = b3\<lparr>ball_vy := ball_vy b3 * CFG_friction\<rparr>;
          b5 = b4\<lparr>ball_x := ball_x b4 + ball_vx b4\<rparr>
      in b5\<lparr>ball_y := ball_y b5 + ball_vy b5\<rparr>)"

text \<open>\<open>Ball.update\<close> applied \<open>n\<close> times with the same acceleration input.\<close>

fun Ball_update_n :: "nat \<Rightarrow> Ball \<Rightarrow> real \<Rightarrow> real \<Rightarrow> Ball" where
  "Ball_update_n 0 b ax ay = b"
| "Ball_update_n (Suc n) b ax ay = Ball_update (Ball_update_n n b ax ay) ax ay"

section \<open>Circle against the grid\<close>

text \<open>
  \<open>Maze.resolveCollision(ball, rectX, rectY, rectSize)\<close>. A method can assign to the
  fields of \<open>this\<close> and of its argument, so the model takes the maze and the ball and
  returns both as the method leaves them. The division by \<open>distance\<close> happens only
  under the guard \<open>distanceSq > 0\<close>.
\<close>

definition resolveCollision :: "Maze \<Rightarrow> Ball \<Rightarrow> real \<Rightarrow> real \<Rightarrow> real \<Rightarrow> Maze \<times> Ball" where
  "resolveCollision m b rectX rectY rectSize =
     (let closestX = max rectX (min (ball_x b) (rectX + rectSize));
          closestY = max rectY (min (ball_y b) (rectY + rectSize));
          dx = ball_x b - closestX;
          dy = ball_y b - closestY;
          distanceSq = dx * dx + dy * dy
      in if distanceSq < ball_radius b * ball_radius b \<and> distanceSq > 0 then
           (let distance = sqrt distanceSq;
                overlap = ball_radius b - distance;
                nx = dx / distance;
                ny = dy / distance;
                b1 = b\<lparr>ball_x := ball_x b + nx * overlap\<rparr>;
                b2 = b1\<lparr>ball_y := ball_y b1 + ny * overlap\<rparr>;
                dot = ball_vx b2 * nx + ball_vy b2 * ny
            in if dot < 0 then
                 (let b3 = b2\<lparr>ball_vx := ball_vx b2 - (1 + 0.5) * dot * nx\<rparr>
                  in (m, b3\<lparr>ball_vy := ball_vy b3 - (1 + 0.5) * dot * ny\<rparr>))
               else (m, b2))
         else (m, b))"

text \<open>
  \<open>Maze.checkCollision(ball, cellSize)\<close>. The four bounds are computed once, from the
  ball as it enters; the cells are visited row by row, and each resolution sees the
  ball as the previous one left it. \<open>||\<close> reads \<open>this.grid[r][c]\<close> only for a cell
  inside the grid. The quotients are those of the reals, so the model is the method for
  \<open>cellSize \<noteq> 0\<close> only (at 0 the source divides by zero and its bounds are infinite or
  not numbers); the theorems about a pass assume \<open>cellSize \<noteq> 0\<close>.
\<close>

fun checkCollision_cols ::
  "real \<Rightarrow> int \<Rightarrow> int list \<Rightarrow> Maze \<times> Ball \<Rightarrow> error + Maze \<times> Ball" where
  "checkCollision_cols cellSize r [] (m, b) = Inr (m, b)"
| "checkCollision_cols cellSize r (c # cs) (m, b) =
     (if r < 0 \<or> r \<ge> rows m \<or> c < 0 \<or> c \<ge> cols m then
        checkCollision_cols cellSize r cs
          (resolveCollision m b (real_of_int c * cellSize) (real_of_int r * cellSize) cellSize)
      else
        (case read_cell (grid m) r c of
           Inl e \<Rightarrow> Inl e
         | Inr v \<Rightarrow>
             if v = Some WALL then
               checkCollision_cols cellSize r cs
                 (resolveCollision m b (real_of_int c * cellSize) (real_of_int r * cellSize) cellSize)
             else checkCollision_cols cellSize r cs (m, b)))"

fun checkCollision_rows ::
  "real \<Rightarrow> int list \<Rightarrow> int list \<Rightarrow> Maze \<times> Ball \<Rightarrow> error + Maze \<times> Ball" where
  "checkCollision_rows cellSize [] cs (m, b) = Inr (m, b)"
| "checkCollision_rows cellSize (r # rs) cs (m, b) =
     (case checkCollision_cols cellSize r cs (m, b) of
        Inl e \<Rightarrow> Inl e
      | Inr mb \<Rightarrow> checkCollision_rows cellSize rs cs mb)"

definition checkCollision :: "Maze \<Rightarrow> Ball \<Rightarrow> real \<Rightarrow> error + Maze \<times> Ball" where
  "checkCollision m b cellSize =
     (let minC = \<lfloor>(ball_x b - ball_radius b) / cellSize\<rfloor>;
          maxC = \<lfloor>(ball_x b + ball_radius b) / cellSize\<rfloor>;
          minR = \<lfloor>(ball_y b - ball_radius b) / cellSize\<rfloor>;
          maxR = \<lfloor>(ball_y b + ball_radius b) / cellSize\<rfloor>
      in checkCollision_rows cellSize [minR..maxR] [minC..maxC] (m, b))"

section \<open>The game\<close>

text \<open>
  \<open>class Game\<close> without the canvas and the DOM elements. \<open>this.maze\<close> and \<open>this.ball\<close>
  are undefined until the first \<open>startGame\<close>. The third state is spelled \<open>GAMEOVER\<close> in
  the source. \<open>game_cols\<close>, \<open>game_rows\<close> and \<open>cellSize\<close> are the fields that \<open>resize\<close>
  sets from the window. \<open>Date.now()\<close> is a parameter of the function that reads it.
\<close>

datatype phase = IDLE | PLAYING | GAMEOVER

record Game =
  game_cols :: int
  game_rows :: int
  cellSize :: real
  state :: phase
  startTime :: int
  input :: "real \<times> real"
  maze :: "Maze option"
  ball :: "Ball option"

text \<open>\<open>Game.endGame()\<close>: the state changes; the rest writes the result screen.\<close>

definition endGame :: "Game \<Rightarrow> Game" where
  "endGame g = g\<lparr>state := GAMEOVER\<rparr>"

text \<open>
  \<open>Game.update()\<close>: integrate, collide, check the goal. The timer text is a DOM write
  and is left out.
\<close>

definition Game_update :: "Game \<Rightarrow> error + Game" where
  "Game_update g =
     (let ax = fst (input g) * CFG_acceleration;
          ay = snd (input g) * CFG_acceleration
      in case ball g of
           None \<Rightarrow> Inl TypeError
         | Some b \<Rightarrow>
             (let b1 = Ball_update b ax ay
              in case maze g of
                   None \<Rightarrow> Inl TypeError
                 | Some m \<Rightarrow>
                     (case checkCollision m b1 (cellSize g) of
                        Inl e \<Rightarrow> Inl e
                      | Inr (m2, b2) \<Rightarrow>
                          (let g2 = g\<lparr>maze := Some m2, ball := Some b2\<rparr>;
                               gx = real_of_int (fst (goal m2)) * cellSize g2 + cellSize g2 / 2;
                               gy = real_of_int (snd (goal m2)) * cellSize g2 + cellSize g2 / 2;
                               dx = ball_x b2 - gx;
                               dy = ball_y b2 - gy;
                               dist = sqrt (dx * dx + dy * dy)
                           in if dist < cellSize g2 * 0.5 then Inr (endGame g2) else Inr g2))))"

text \<open>
  \<open>Game.loop()\<close>: one callback of the frame scheduler. Outside \<open>PLAYING\<close> it returns at
  once; \<open>draw\<close> changes no field.
\<close>

definition loop :: "Game \<Rightarrow> error + Game" where
  "loop g = (if state g \<noteq> PLAYING then Inr g else Game_update g)"

text \<open>\<open>n\<close> successive callbacks of the scheduler.\<close>

fun frames :: "nat \<Rightarrow> Game \<Rightarrow> error + Game" where
  "frames 0 g = Inr g"
| "frames (Suc n) g = (case loop g of Inl e \<Rightarrow> Inl e | Inr g' \<Rightarrow> frames n g')"

text \<open>
  \<open>Game.startGame()\<close>, where \<open>now\<close> is the value of \<open>Date.now()\<close>. It ends by calling
  \<open>loop\<close>, so the first frame runs before \<open>startGame\<close> returns.
\<close>

definition startGame :: "(nat \<Rightarrow> real) \<Rightarrow> int \<Rightarrow> Game \<Rightarrow> error + Game" where
  "startGame rnd now g =
     (case Maze_new rnd (game_cols g) (game_rows g) of
        Inl e \<Rightarrow> Inl e
      | Inr m \<Rightarrow>
          (let startX = real_of_int (fst (start m)) * cellSize g + cellSize g / 2;
               startY = real_of_int (snd (start m)) * cellSize g + cellSize g / 2;
               radius = cellSize g * CFG_ballRadiusRatio;
               b = Ball_new startX startY radius
           in loop (g\<lparr>maze := Some m, ball := Some b, state := PLAYING,
                       startTime := now, input := (0, 0)\<rparr>)))"

section \<open>Quantities of the collision geometry\<close>

text \<open>
  The closest point of the rectangle, the squared distance of the centre to it, the
  distance, the contact normal, and the components of the velocity along the normal
  and along the tangent.
\<close>

definition closestX :: "Ball \<Rightarrow> real \<Rightarrow> real \<Rightarrow> real" where
  "closestX b rectX rectSize = max rectX (min (ball_x b) (rectX + rectSize))"

definition closestY :: "Ball \<Rightarrow> real \<Rightarrow> real \<Rightarrow> real" where
  "closestY b rectY rectSize = max rectY (min (ball_y b) (rectY + rectSize))"

definition distanceSq :: "Ball \<Rightarrow> real \<Rightarrow> real \<Rightarrow> real \<Rightarrow> real" where
  "distanceSq b rectX rectY rectSize =
     (ball_x b - closestX b rectX rectSize) * (ball_x b - closestX b rectX rectSize) +
     (ball_y b - closestY b rectY rectSize) * (ball_y b - closestY b rectY rectSize)"

definition distance :: "Ball \<Rightarrow> real \<Rightarrow> real \<Rightarrow> real \<Rightarrow> real" where
  "distance b rectX rectY rectSize = sqrt (distanceSq b rectX rectY rectSize)"

definition normalX :: "Ball \<Rightarrow> real \<Rightarrow> real \<Rightarrow> real \<Rightarrow> real" where
  "normalX b rectX rectY rectSize =
     (ball_x b - closestX b rectX rectSize) / distance b rectX rectY rectSize"

definition normalY :: "Ball \<Rightarrow> real \<Rightarrow> real \<Rightarrow> real \<Rightarrow> real" where
  "normalY b rectX rectY rectSize =
     (ball_y b - closestY b rectY rectSize) / distance b rectX rectY rectSize"

definition normal_velocity :: "Ball \<Rightarrow> real \<Rightarrow> real \<Rightarrow> real" where
  "normal_velocity b nx ny = ball_vx b * nx + ball_vy b * ny"

definition tangent_velocity :: "Ball \<Rightarrow> real \<Rightarrow> real \<Rightarrow> real" where
  "tangent_velocity b nx ny = ball_vy b * nx - ball_vx b * ny"

text \<open>
  A ball that overlaps the right edge of the rectangle at the origin with size 40, and
  moves towards it; the maze object as the constructor builds it before \<open>generate\<close>.
\<close>

definition probe_ball :: Ball where
  "probe_ball = \<lparr>ball_x = 45, ball_y = 20, ball_vx = - 2, ball_vy = 3, ball_radius = 14\<rparr>"

definition blank_maze :: "int \<Rightarrow> int \<Rightarrow> Maze" where
  "blank_maze cs rs =
     \<lparr>cols = cs, rows = rs, grid = Map.empty, start = (1, 1), goal = (cs - 2, rs - 2)\<rparr>"

section \<open>Properties of a grid\<close>

text \<open>
  A cell is a path cell when reading it gives 0 and a wall when reading it gives 1;
  a cell is inside when it lies strictly within the border rows and columns; a random
  source is one of \<open>Math.random\<close> when every value lies in \<open>[0, 1)\<close>.
\<close>

definition is_path :: "Maze \<Rightarrow> int \<Rightarrow> int \<Rightarrow> bool" where
  "is_path m r c \<longleftrightarrow> read_cell (grid m) r c = Inr (Some PATH)"

definition is_wall :: "Maze \<Rightarrow> int \<Rightarrow> int \<Rightarrow> bool" where
  "is_wall m r c \<longleftrightarrow> read_cell (grid m) r c = Inr (Some WALL)"

definition inside :: "Maze \<Rightarrow> int \<Rightarrow> int \<Rightarrow> bool" where
  "inside m r c \<longleftrightarrow> 0 < r \<and> r < rows m - 1 \<and> 0 < c \<and> c < cols m - 1"

definition random_source :: "(nat \<Rightarrow> real) \<Rightarrow> bool" where
  "random_source rnd \<longleftrightarrow> (\<forall>i. 0 \<le> rnd i \<and> rnd i < 1)"

text \<open>
  The flood fill from the start cell \<open>grid[start.y][start.x]\<close>: the start cell is
  reached if it is a path cell, and from a reached cell every path cell next to it in
  one of the four directions is reached.
\<close>

inductive reachable :: "Maze \<Rightarrow> int \<Rightarrow> int \<Rightarrow> bool" for m :: Maze where
  reach_start: "is_path m (snd (start m)) (fst (start m)) \<Longrightarrow>
                reachable m (snd (start m)) (fst (start m))"
| reach_up: "reachable m r c \<Longrightarrow> is_path m (r - 1) c \<Longrightarrow> reachable m (r - 1) c"
| reach_down: "reachable m r c \<Longrightarrow> is_path m (r + 1) c \<Longrightarrow> reachable m (r + 1) c"
| reach_left: "reachable m r c \<Longrightarrow> is_path m r (c - 1) \<Longrightarrow> reachable m r (c - 1)"
| reach_right: "reachable m r c \<Longrightarrow> is_path m r (c + 1) \<Longrightarrow> reachable m r (c + 1)"

text \<open>
  The cells of the grid in scan order, the path cells among them, and the links: the
  pairs of a path cell and the path cell to its right, then the pairs of a path cell
  and the path cell below it.
\<close>

definition all_cells :: "Maze \<Rightarrow> (int \<times> int) list" where
  "all_cells m = List.product [0..rows m - 1] [0..cols m - 1]"

definition path_cells :: "Maze \<Rightarrow> (int \<times> int) list" where
  "path_cells m = filter (\<lambda>(r, c). is_path m r c) (all_cells m)"

definition path_links :: "Maze \<Rightarrow> ((int \<times> int) \<times> (int \<times> int)) list" where
  "path_links m =
     filter (\<lambda>((r, c), (r', c')). is_path m r c \<and> is_path m r' c')
       (map (\<lambda>(r, c). ((r, c), (r, c + 1))) (all_cells m) @
        map (\<lambda>(r, c). ((r, c), (r + 1, c))) (all_cells m))"

section \<open>Predicates of the proofs\<close>

text \<open>Every row inside the grid exists, so no read or write of a cell in it raises.\<close>

definition rows_defined :: "Maze \<Rightarrow> bool" where
  "rows_defined m \<longleftrightarrow> (\<forall>r. 0 \<le> r \<and> r < rows m \<longrightarrow> grid m r \<noteq> None)"

text \<open>The pure predicate that \<open>valid_dir\<close> computes on a grid whose rows are defined.\<close>

definition dir_ok :: "Maze \<Rightarrow> int \<times> int \<Rightarrow> int \<times> int \<Rightarrow> bool" where
  "dir_ok m current dir \<longleftrightarrow>
     inside m (fst current + fst dir) (snd current + snd dir) \<and>
     is_wall m (fst current + fst dir) (snd current + snd dir)"

text \<open>
  A carving step from \<open>current\<close> in direction \<open>dir\<close>: the cell between and the target
  cell become path cells, nothing else changes.
\<close>

definition carved :: "Maze \<Rightarrow> int \<times> int \<Rightarrow> int \<times> int \<Rightarrow> Maze \<Rightarrow> bool" where
  "carved m current dir m' \<longleftrightarrow>
     dir \<in> set directions \<and> dir_ok m current dir \<and>
     rows m' = rows m \<and> cols m' = cols m \<and> start m' = start m \<and> goal m' = goal m \<and>
     (\<forall>r c. read_cell (grid m') r c =
        (if (r = fst current + fst dir div 2 \<and> c = snd current + snd dir div 2) \<or>
            (r = fst current + fst dir \<and> c = snd current + snd dir)
         then Inr (Some PATH) else read_cell (grid m) r c))"

text \<open>
  The parts of the loop invariant: every cell of the grid holds 0 or 1; path cells lie
  strictly inside the border and never have two even coordinates; a path cell with an
  even coordinate (a passage) joins the two path cells on either side of it; the stack
  holds path cells with odd coordinates (rooms); a room that left the stack has no wall
  room two steps away; every path cell is reached by the flood fill; and there is one
  passage less than there are rooms.
\<close>

definition cells_ok :: "Maze \<Rightarrow> bool" where
  "cells_ok m \<longleftrightarrow>
     (\<forall>r c. 0 \<le> r \<and> r < rows m \<and> 0 \<le> c \<and> c < cols m \<longrightarrow> is_path m r c \<or> is_wall m r c)"

definition paths_inside :: "Maze \<Rightarrow> bool" where
  "paths_inside m \<longleftrightarrow> (\<forall>r c. is_path m r c \<longrightarrow> inside m r c \<and> (odd r \<or> odd c))"

definition links_joined :: "Maze \<Rightarrow> bool" where
  "links_joined m \<longleftrightarrow>
     (\<forall>r c. is_path m r c \<longrightarrow>
        (even r \<longrightarrow> is_path m (r - 1) c \<and> is_path m (r + 1) c) \<and>
        (even c \<longrightarrow> is_path m r (c - 1) \<and> is_path m r (c + 1)))"

definition stack_ok :: "Maze \<Rightarrow> (int \<times> int) list \<Rightarrow> bool" where
  "stack_ok m stack \<longleftrightarrow> (\<forall>p \<in> set stack. is_path m (fst p) (snd p) \<and> odd (fst p) \<and> odd (snd p))"

definition closed_rooms :: "Maze \<Rightarrow> (int \<times> int) list \<Rightarrow> bool" where
  "closed_rooms m stack \<longleftrightarrow>
     (\<forall>r c. is_path m r c \<and> odd r \<and> odd c \<and> (r, c) \<notin> set stack \<longrightarrow>
        (\<forall>d \<in> set directions. inside m (r + fst d) (c + snd d) \<longrightarrow>
                                 is_path m (r + fst d) (c + snd d)))"

definition connected :: "Maze \<Rightarrow> bool" where
  "connected m \<longleftrightarrow> (\<forall>r c. is_path m r c \<longrightarrow> reachable m r c)"

definition rooms :: "Maze \<Rightarrow> (int \<times> int) set" where
  "rooms m = {(r, c). is_path m r c \<and> odd r \<and> odd c}"

definition passages :: "Maze \<Rightarrow> (int \<times> int) set" where
  "passages m = {(r, c). is_path m r c \<and> (even r \<or> even c)}"

definition tree_count :: "Maze \<Rightarrow> bool" where
  "tree_count m \<longleftrightarrow> card (passages m) + 1 = card (rooms m)"

definition carve_inv :: "Maze \<Rightarrow> (int \<times> int) list \<Rightarrow> bool" where
  "carve_inv m stack \<longleftrightarrow>
     rows_defined m \<and> cells_ok m \<and> start m = (1, 1) \<and> is_path m 1 1 \<and>
     paths_inside m \<and> links_joined m \<and> stack_ok m stack \<and> closed_rooms m stack \<and>
     connected m \<and> tree_count m"

text \<open>
  The loop assigns to cells of the grid only.
\<close>

definition same_frame :: "Maze \<Rightarrow> Maze \<Rightarrow> (int \<times> int) list \<Rightarrow> bool" where
  "same_frame m0 m stack \<longleftrightarrow>
     rows_defined m \<and> rows m = rows m0 \<and> cols m = cols m0 \<and> start m = start m0 \<and> goal m = goal m0"

text \<open>
  The two links of a passage: from the cell before it, and to the cell after it.
\<close>

definition entering :: "int \<times> int \<Rightarrow> (int \<times> int) \<times> (int \<times> int)" where
  "entering p = (if even (fst p) then ((fst p - 1, snd p), p) else ((fst p, snd p - 1), p))"

definition leaving :: "int \<times> int \<Rightarrow> (int \<times> int) \<times> (int \<times> int)" where
  "leaving p = (if even (fst p) then (p, (fst p + 1, snd p)) else (p, (fst p, snd p + 1)))"

text \<open>
  A random source that always returns 0, so that the first valid direction is taken,
  and a small grid whose goal cell is a wall with a path cell on its left.
\<close>

definition first_choice :: "nat \<Rightarrow> real" where
  "first_choice i = 0"

definition probe_maze :: Maze where
  "probe_maze =
     \<lparr>cols = 4, rows = 3,
      grid = [0 \<mapsto> [0 \<mapsto> WALL, 1 \<mapsto> WALL, 2 \<mapsto> WALL, 3 \<mapsto> WALL],
              1 \<mapsto> [0 \<mapsto> WALL, 1 \<mapsto> PATH, 2 \<mapsto> WALL, 3 \<mapsto> WALL],
              2 \<mapsto> [0 \<mapsto> WALL, 1 \<mapsto> WALL, 2 \<mapsto> WALL, 3 \<mapsto> WALL]],
      start = (1, 1), goal = (2, 1)\<rparr>"

text \<open>
  The rows and columns of the cells that \<open>checkCollision\<close> visits, and the cells it
  resolves against: those outside the grid and those that hold 1.
\<close>

definition scan_rows :: "Ball \<Rightarrow> real \<Rightarrow> int list" where
  "scan_rows b csz =
     [\<lfloor>(ball_y b - ball_radius b) / csz\<rfloor>..\<lfloor>(ball_y b + ball_radius b) / csz\<rfloor>]"

definition scan_cols :: "Ball \<Rightarrow> real \<Rightarrow> int list" where
  "scan_cols b csz =
     [\<lfloor>(ball_x b - ball_radius b) / csz\<rfloor>..\<lfloor>(ball_x b + ball_radius b) / csz\<rfloor>]"

definition solid :: "Maze \<Rightarrow> int \<Rightarrow> int \<Rightarrow> bool" where
  "solid m r c \<longleftrightarrow> r < 0 \<or> r \<ge> rows m \<or> c < 0 \<or> c \<ge> cols m \<or> is_wall m r c"


definition idle_game :: Game where
  "idle_game =
     \<lparr>game_cols = 5, game_rows = 5, cellSize = 40, state = IDLE, startTime = 0,
      input = (0, 0), maze = None, ball = None\<rparr>"

text \<open>
  A game on a window 1500 wide and 150 high, as \<open>resize\<close> sets its fields: 15 columns
  and 1 row of cell size 100.
\<close>

definition short_game :: Game where
  "short_game =
     \<lparr>game_cols = 15, game_rows = 1, cellSize = 100, state = IDLE, startTime = 0,
      input = (0, 0), maze = None, ball = None\<rparr>"

text \<open>
  The probe maze with its goal on the cell (1, 1); a game that is playing on it, with
  the ball at rest left of the centre of that cell and the input pushing it to the
  right; and the ball as one frame leaves it.
\<close>

definition goal_maze :: Maze where
  "goal_maze = probe_maze\<lparr>goal := (1, 1)\<rparr>"

definition goal_game :: Game where
  "goal_game =
     \<lparr>game_cols = 4, game_rows = 3, cellSize = 40, state = PLAYING, startTime = 0,
      input = (1, 0), maze = Some goal_maze, ball = Some (Ball_new 50 60 9)\<rparr>"

definition ball_after :: Ball where
  "ball_after = \<lparr>ball_x = 50.48, ball_y = 60, ball_vx = 0.48, ball_vy = 0, ball_radius = 9\<rparr>"

text \<open>
  The Euclidean distance of two points of the plane, and the centre of the cell
  \<open>(x, y)\<close> of a grid of cell size \<open>cs\<close>, whose origin is the corner \<open>(x * cs, y * cs)\<close>.
\<close>

definition euclidean :: "real \<times> real \<Rightarrow> real \<times> real \<Rightarrow> real" where
  "euclidean p q = sqrt ((fst p - fst q)\<^sup>2 + (snd p - snd q)\<^sup>2)"

definition cell_centre :: "int \<times> int \<Rightarrow> real \<Rightarrow> real \<times> real" where
  "cell_centre p cs = (real_of_int (fst p) * cs + cs / 2, real_of_int (snd p) * cs + cs / 2)"

section \<open>Collision resolution\<close>

lemma resolveCollision_unfold:
  "resolveCollision m b rectX rectY rectSize =
    (if distanceSq b rectX rectY rectSize < ball_radius b * ball_radius b \<and>
        0 < distanceSq b rectX rectY rectSize
     then (let nx = normalX b rectX rectY rectSize;
               ny = normalY b rectX rectY rectSize;
               overlap = ball_radius b - distance b rectX rectY rectSize;
               dot = ball_vx b * nx + ball_vy b * ny
           in (m, b\<lparr>ball_x := ball_x b + nx * overlap,
                     ball_y := ball_y b + ny * overlap,
                     ball_vx := (if dot < 0 then ball_vx b - (3 / 2) * dot * nx else ball_vx b),
                     ball_vy := (if dot < 0 then ball_vy b - (3 / 2) * dot * ny else ball_vy b)\<rparr>))
     else (m, b))"
  unfolding resolveCollision_def Let_def
  unfolding closestX_def[symmetric] closestY_def[symmetric]
  unfolding distanceSq_def[symmetric]
  unfolding distance_def[symmetric]
  unfolding normalX_def[symmetric] normalY_def[symmetric]
  by simp

lemma overlap_guard:
  assumes "0 < distance b rectX rectY rectSize"
    and "distance b rectX rectY rectSize < ball_radius b"
  shows "distanceSq b rectX rectY rectSize < ball_radius b * ball_radius b \<and>
         0 < distanceSq b rectX rectY rectSize"
proof -
  let ?d = "distanceSq b rectX rectY rectSize"
  have p: "0 < ?d" using assms(1) by (simp add: distance_def)
  have "sqrt ?d < ball_radius b" using assms(2) by (simp add: distance_def)
  moreover have "0 \<le> sqrt ?d" using p by simp
  ultimately have "sqrt ?d * sqrt ?d < ball_radius b * ball_radius b"
    by (intro mult_strict_mono') auto
  then show ?thesis using p by simp
qed

lemma normal_unit:
  assumes "0 < distance b rectX rectY rectSize"
  shows "normalX b rectX rectY rectSize * normalX b rectX rectY rectSize +
         normalY b rectX rectY rectSize * normalY b rectX rectY rectSize = 1"
proof -
  let ?d = "distanceSq b rectX rectY rectSize"
  let ?s = "distance b rectX rectY rectSize"
  have p: "0 < ?d" using assms by (simp add: distance_def)
  have ss: "?s * ?s = ?d" using p by (simp add: distance_def)
  have "normalX b rectX rectY rectSize * normalX b rectX rectY rectSize +
        normalY b rectX rectY rectSize * normalY b rectX rectY rectSize = ?d / (?s * ?s)"
    by (simp add: normalX_def normalY_def distanceSq_def add_divide_distrib)
  then show ?thesis using ss p by simp
qed

lemma no_overlap_guard:
  assumes "0 \<le> ball_radius b"
    and "ball_radius b \<le> distance b rectX rectY rectSize"
  shows "\<not> distanceSq b rectX rectY rectSize < ball_radius b * ball_radius b"
proof -
  let ?d = "distanceSq b rectX rectY rectSize"
  have nn: "0 \<le> ?d" by (simp add: distanceSq_def)
  have "ball_radius b * ball_radius b \<le> sqrt ?d * sqrt ?d"
    using assms nn by (intro mult_mono) (auto simp: distance_def)
  then show ?thesis using nn by simp
qed

text \<open>
  C6. A circle resolved against one rectangle with \<open>0 < distance < radius\<close>: when the
  component of the velocity along the contact normal is negative, the resolution
  replaces it by its opposite scaled by 0.5 and leaves the tangential component as it
  was; when it is not negative, the velocity is unchanged.
\<close>

theorem resolveCollision_bounce:
  assumes "0 < distance b rectX rectY rectSize"
    and "distance b rectX rectY rectSize < ball_radius b"
  shows "let nx = normalX b rectX rectY rectSize;
             ny = normalY b rectX rectY rectSize;
             b' = snd (resolveCollision m b rectX rectY rectSize);
             dot = normal_velocity b nx ny
         in (dot < 0 \<longrightarrow>
               normal_velocity b' nx ny = - (0.5 * dot) \<and>
               tangent_velocity b' nx ny = tangent_velocity b nx ny) \<and>
            (\<not> dot < 0 \<longrightarrow> ball_vx b' = ball_vx b \<and> ball_vy b' = ball_vy b)"
proof -
  let ?nx = "normalX b rectX rectY rectSize"
  let ?ny = "normalY b rectX rectY rectSize"
  let ?dot = "ball_vx b * ?nx + ball_vy b * ?ny"
  note g = overlap_guard[OF assms]
  have u: "?nx * ?nx + ?ny * ?ny = 1" by (rule normal_unit[OF assms(1)])
  have n: "(ball_vx b - 3 / 2 * ?dot * ?nx) * ?nx + (ball_vy b - 3 / 2 * ?dot * ?ny) * ?ny
           = ?dot - 3 / 2 * ?dot * (?nx * ?nx + ?ny * ?ny)"
    by (simp add: algebra_simps)
  have t: "(ball_vy b - 3 / 2 * ?dot * ?ny) * ?nx - (ball_vx b - 3 / 2 * ?dot * ?nx) * ?ny
           = ball_vy b * ?nx - ball_vx b * ?ny"
    by (simp add: algebra_simps)
  let ?b' = "snd (resolveCollision m b rectX rectY rectSize)"
  have same: "\<not> ?dot < 0 \<Longrightarrow> ball_vx ?b' = ball_vx b \<and> ball_vy ?b' = ball_vy b"
    using g by (simp add: resolveCollision_unfold Let_def)
  have flip: "normal_velocity ?b' ?nx ?ny = - (0.5 * ?dot) \<and>
              tangent_velocity ?b' ?nx ?ny = tangent_velocity b ?nx ?ny" if neg: "?dot < 0"
  proof -
    have vx': "ball_vx ?b' = ball_vx b - 3 / 2 * ?dot * ?nx"
      and vy': "ball_vy ?b' = ball_vy b - 3 / 2 * ?dot * ?ny"
      using g neg by (simp_all add: resolveCollision_unfold Let_def)
    have "normal_velocity ?b' ?nx ?ny = ?dot - 3 / 2 * ?dot * (?nx * ?nx + ?ny * ?ny)"
      unfolding normal_velocity_def vx' vy' by (rule n)
    also have "\<dots> = - (0.5 * ?dot)" unfolding u by (simp add: algebra_simps)
    finally have a: "normal_velocity ?b' ?nx ?ny = - (0.5 * ?dot)" .
    have "tangent_velocity ?b' ?nx ?ny = ball_vy b * ?nx - ball_vx b * ?ny"
      unfolding tangent_velocity_def vx' vy' by (rule t)
    then show ?thesis using a by (simp add: tangent_velocity_def)
  qed
  show ?thesis
    unfolding Let_def normal_velocity_def[of b] using same flip by blast
qed

lemma clamp_pushed:
  fixes p lo len t :: real
  assumes "0 \<le> t"
  shows "max lo (min (p + (p - max lo (min p (lo + len))) * t) (lo + len))
         = max lo (min p (lo + len))"
proof -
  let ?f = "max lo (min p (lo + len))"
  consider "p - ?f = 0" | "0 < p - ?f" | "p - ?f < 0" by linarith
  then show ?thesis
  proof cases
    case 1
    then show ?thesis by simp
  next
    case 2
    then have "0 \<le> (p - ?f) * t" using assms by simp
    then show ?thesis using 2 by (auto simp: max_def min_def split: if_splits)
  next
    case 3
    then have "(p - ?f) * t \<le> 0" using assms by (simp add: mult_nonpos_nonneg)
    then show ?thesis using 3 by (auto simp: max_def min_def split: if_splits)
  qed
qed

lemma resolveCollision_distance:
  assumes "0 < distance b rectX rectY rectSize"
    and "distance b rectX rectY rectSize < ball_radius b"
  shows "distance (snd (resolveCollision m b rectX rectY rectSize)) rectX rectY rectSize
         = ball_radius b"
proof -
  let ?s = "distance b rectX rectY rectSize"
  let ?t = "(ball_radius b - ?s) / ?s"
  let ?cx = "closestX b rectX rectSize"
  let ?cy = "closestY b rectY rectSize"
  let ?b' = "snd (resolveCollision m b rectX rectY rectSize)"
  note g = overlap_guard[OF assms]
  have t0: "0 \<le> ?t" using assms by simp
  have x': "ball_x ?b' = ball_x b + (ball_x b - ?cx) * ?t"
    using g by (simp add: resolveCollision_unfold Let_def normalX_def)
  have y': "ball_y ?b' = ball_y b + (ball_y b - ?cy) * ?t"
    using g by (simp add: resolveCollision_unfold Let_def normalY_def)
  have cx': "closestX ?b' rectX rectSize = ?cx"
    unfolding closestX_def x' using clamp_pushed[OF t0, of rectX "ball_x b" rectSize]
    by (simp add: closestX_def)
  have cy': "closestY ?b' rectY rectSize = ?cy"
    unfolding closestY_def y' using clamp_pushed[OF t0, of rectY "ball_y b" rectSize]
    by (simp add: closestY_def)
  have one: "1 + ?t = ball_radius b / ?s" using assms(1) by (simp add: field_simps)
  have dx: "ball_x ?b' - ?cx = (ball_x b - ?cx) * (ball_radius b / ?s)"
    unfolding x' one[symmetric] by (simp add: algebra_simps)
  have dy: "ball_y ?b' - ?cy = (ball_y b - ?cy) * (ball_radius b / ?s)"
    unfolding y' one[symmetric] by (simp add: algebra_simps)
  have ss: "?s * ?s = distanceSq b rectX rectY rectSize"
    using g by (simp add: distance_def)
  have alg: "(p * k) * (p * k) + (q * k) * (q * k) = (p * p + q * q) * (k * k)"
    for p q k :: real by (simp add: algebra_simps)
  have "distanceSq ?b' rectX rectY rectSize
        = distanceSq b rectX rectY rectSize * ((ball_radius b / ?s) * (ball_radius b / ?s))"
    unfolding distanceSq_def cx' cy' dx dy by (rule alg)
  also have "\<dots> = ball_radius b * ball_radius b"
    unfolding ss[symmetric] using assms(1) by simp
  finally have "distanceSq ?b' rectX rectY rectSize = ball_radius b * ball_radius b" .
  then have "distance ?b' rectX rectY rectSize = \<bar>ball_radius b\<bar>"
    by (simp add: distance_def)
  then show ?thesis using assms by simp
qed

text \<open>
  C7. A circle resolved against one rectangle with \<open>0 < distance < radius\<close> is moved
  along the normal by \<open>radius - distance\<close>, and afterwards the distance from its centre
  to the closest point of the rectangle is at least the radius.
\<close>

theorem resolveCollision_pushes_out:
  assumes "0 < distance b rectX rectY rectSize"
    and "distance b rectX rectY rectSize < ball_radius b"
  shows "let nx = normalX b rectX rectY rectSize;
             ny = normalY b rectX rectY rectSize;
             overlap = ball_radius b - distance b rectX rectY rectSize;
             b' = snd (resolveCollision m b rectX rectY rectSize)
         in ball_x b' = ball_x b + nx * overlap \<and>
            ball_y b' = ball_y b + ny * overlap \<and>
            ball_radius b' = ball_radius b \<and>
            ball_radius b' \<le> distance b' rectX rectY rectSize"
  using overlap_guard[OF assms] resolveCollision_distance[OF assms, of m]
  by (simp add: Let_def) (simp add: resolveCollision_unfold Let_def)

text \<open>
  C8. When the squared distance from the centre of the circle to the closest point of
  the rectangle is exactly 0, \<open>resolveCollision\<close> changes nothing: the ball keeps its
  position and its velocity.
\<close>

theorem resolveCollision_degenerate_skipped:
  assumes "distanceSq b rectX rectY rectSize = 0"
  shows "resolveCollision m b rectX rectY rectSize = (m, b)"
  using assms by (simp add: resolveCollision_unfold)

lemma resolveCollision_no_overlap:
  assumes "0 \<le> ball_radius b"
    and "ball_radius b \<le> distance b rectX rectY rectSize"
  shows "resolveCollision m b rectX rectY rectSize = (m, b)"
  using no_overlap_guard[OF assms] by (simp add: resolveCollision_unfold)

lemma resolveCollision_maze: "fst (resolveCollision m b rectX rectY rectSize) = m"
  by (simp add: resolveCollision_unfold Let_def)

lemma probe_geometry:
  "closestX probe_ball 0 40 = 40" "closestY probe_ball 0 40 = 20"
  "distanceSq probe_ball 0 0 40 = 25" "distance probe_ball 0 0 40 = 5"
  "normalX probe_ball 0 0 40 = 1" "normalY probe_ball 0 0 40 = 0"
proof -
  show cx: "closestX probe_ball 0 40 = 40" by (simp add: closestX_def probe_ball_def)
  show cy: "closestY probe_ball 0 40 = 20" by (simp add: closestY_def probe_ball_def)
  show dsq: "distanceSq probe_ball 0 0 40 = 25"
    unfolding distanceSq_def cx cy by (simp add: probe_ball_def)
  have "sqrt 25 = (5::real)" by (rule real_sqrt_unique) simp_all
  then show d: "distance probe_ball 0 0 40 = 5" by (simp add: distance_def dsq)
  show "normalX probe_ball 0 0 40 = 1" unfolding normalX_def cx d by (simp add: probe_ball_def)
  show "normalY probe_ball 0 0 40 = 0" unfolding normalY_def cy d by (simp add: probe_ball_def)
qed

text \<open>
  The bounce at the probe ball: the normal component \<open>-2\<close> becomes \<open>1\<close>, the tangential one stays \<open>3\<close>.
\<close>

theorem resolveCollision_bounce_witness:
  "0 < distance probe_ball 0 0 40 \<and> distance probe_ball 0 0 40 < ball_radius probe_ball \<and>
   normal_velocity probe_ball 1 0 = - 2 \<and>
   normal_velocity (snd (resolveCollision (blank_maze 5 5) probe_ball 0 0 40)) 1 0 = 1 \<and>
   tangent_velocity (snd (resolveCollision (blank_maze 5 5) probe_ball 0 0 40)) 1 0 = 3"
proof -
  have h1: "0 < distance probe_ball 0 0 40" by (simp add: probe_geometry)
  have h2: "distance probe_ball 0 0 40 < ball_radius probe_ball"
    by (simp add: probe_geometry) (simp add: probe_ball_def)
  have nv: "normal_velocity probe_ball 1 0 = - 2" "tangent_velocity probe_ball 1 0 = 3"
    by (simp_all add: normal_velocity_def tangent_velocity_def probe_ball_def)
  show ?thesis
    using h1 h2 nv resolveCollision_bounce[OF h1 h2, of "blank_maze 5 5"]
    by (simp add: Let_def probe_geometry)
qed

text \<open>
  The push at the probe ball: from \<open>x = 45\<close>, at distance 5, to \<open>x = 54\<close>, at distance 14.
\<close>

theorem resolveCollision_pushes_out_witness:
  "0 < distance probe_ball 0 0 40 \<and> distance probe_ball 0 0 40 < ball_radius probe_ball \<and>
   ball_x (snd (resolveCollision (blank_maze 5 5) probe_ball 0 0 40)) = 54 \<and>
   ball_y (snd (resolveCollision (blank_maze 5 5) probe_ball 0 0 40)) = 20 \<and>
   14 \<le> distance (snd (resolveCollision (blank_maze 5 5) probe_ball 0 0 40)) 0 0 40"
proof -
  have h1: "0 < distance probe_ball 0 0 40" by (simp add: probe_geometry)
  have h2: "distance probe_ball 0 0 40 < ball_radius probe_ball"
    by (simp add: probe_geometry) (simp add: probe_ball_def)
  have r: "ball_radius probe_ball = 14" "ball_x probe_ball = 45" "ball_y probe_ball = 20"
    by (simp_all add: probe_ball_def)
  show ?thesis
    using h1 h2 resolveCollision_pushes_out[OF h1 h2, of "blank_maze 5 5"]
    by (simp add: Let_def probe_geometry r)
qed

text \<open>
  A ball whose centre lies on the right edge of the rectangle.
\<close>

theorem resolveCollision_degenerate_skipped_witness:
  "distanceSq (Ball_new 40 20 14) 0 0 40 = 0 \<and>
   resolveCollision (blank_maze 5 5) (Ball_new 40 20 14) 0 0 40 = (blank_maze 5 5, Ball_new 40 20 14)"
proof -
  have h: "distanceSq (Ball_new 40 20 14) 0 0 40 = 0"
    by (simp add: distanceSq_def closestX_def closestY_def Ball_new_def)
  show ?thesis using h resolveCollision_degenerate_skipped[OF h] by simp
qed

section \<open>Integration\<close>

lemma Ball_update_velocity:
  "ball_vx (Ball_update b ax ay) = (ball_vx b + ax) * CFG_friction"
  "ball_vy (Ball_update b ax ay) = (ball_vy b + ay) * CFG_friction"
  by (simp_all add: Ball_update_def Let_def)

lemma Ball_update_n_vx:
  "ball_vx (Ball_update_n n (Ball_new px py rad) ax ay) = 24 * ax * (1 - CFG_friction ^ n)"
proof (induction n)
  case 0
  then show ?case by (simp add: Ball_new_def)
next
  case (Suc n)
  have "ball_vx (Ball_update_n (Suc n) (Ball_new px py rad) ax ay)
        = (24 * ax * (1 - CFG_friction ^ n) + ax) * CFG_friction"
    by (simp add: Ball_update_velocity Suc.IH)
  also have "\<dots> = 24 * ax * (1 - CFG_friction ^ Suc n)"
    by (simp add: CFG_friction_def algebra_simps)
  finally show ?case .
qed

lemma Ball_update_n_vy:
  "ball_vy (Ball_update_n n (Ball_new px py rad) ax ay) = 24 * ay * (1 - CFG_friction ^ n)"
proof (induction n)
  case 0
  then show ?case by (simp add: Ball_new_def)
next
  case (Suc n)
  have "ball_vy (Ball_update_n (Suc n) (Ball_new px py rad) ax ay)
        = (24 * ay * (1 - CFG_friction ^ n) + ay) * CFG_friction"
    by (simp add: Ball_update_velocity Suc.IH)
  also have "\<dots> = 24 * ay * (1 - CFG_friction ^ Suc n)"
    by (simp add: CFG_friction_def algebra_simps)
  finally show ?case .
qed

lemma friction_power_limit: "(\<lambda>n. 24 * a * (1 - CFG_friction ^ n)) \<longlonglongrightarrow> 24 * a"
proof -
  have "(\<lambda>n. CFG_friction ^ n) \<longlonglongrightarrow> 0"
    by (rule LIMSEQ_realpow_zero) (simp_all add: CFG_friction_def)
  then have "(\<lambda>n. 24 * a * (1 - CFG_friction ^ n)) \<longlonglongrightarrow> 24 * a * (1 - 0)"
    by (intro tendsto_mult tendsto_diff tendsto_const)
  then show ?thesis by simp
qed

lemma terminal_value: "a * CFG_friction / (1 - CFG_friction) = 24 * a"
  by (simp add: CFG_friction_def)

text \<open>
  C2, amended. From zero velocity and under a constant acceleration input, the velocity
  after \<open>n\<close> calls of \<open>Ball.update\<close> converges per axis to
  \<open>acceleration * friction / (1 - friction)\<close>, because the friction multiplies the
  velocity after the acceleration was added. With friction 0.96 and acceleration 0.5
  the limit is 12, and the velocity stays below 12 at every step.
\<close>

theorem Ball_update_terminal_velocity:
  "(\<lambda>n. ball_vx (Ball_update_n n (Ball_new px py rad) ax ay))
      \<longlonglongrightarrow> ax * CFG_friction / (1 - CFG_friction) \<and>
   (\<lambda>n. ball_vy (Ball_update_n n (Ball_new px py rad) ax ay))
      \<longlonglongrightarrow> ay * CFG_friction / (1 - CFG_friction) \<and>
   CFG_acceleration * CFG_friction / (1 - CFG_friction) = 12 \<and>
   (\<forall>n. ball_vx (Ball_update_n n (Ball_new px py rad) CFG_acceleration CFG_acceleration) < 12 \<and>
        ball_vy (Ball_update_n n (Ball_new px py rad) CFG_acceleration CFG_acceleration) < 12)"
proof -
  have "0 < CFG_friction ^ n" for n by (simp add: CFG_friction_def)
  then have "24 * CFG_acceleration * (1 - CFG_friction ^ n) < 12" for n
    by (simp add: CFG_acceleration_def)
  then show ?thesis
    unfolding terminal_value Ball_update_n_vx Ball_update_n_vy
    using friction_power_limit by (simp add: CFG_acceleration_def)
qed

text \<open>
  The velocity does not converge to \<open>acceleration / (1 - friction)\<close>, which is 12.5 for
  friction 0.96 and acceleration 0.5.
\<close>

theorem Ball_update_terminal_velocity_counterexample:
  "\<not> (\<lambda>n. ball_vx (Ball_update_n n (Ball_new 0 0 1) CFG_acceleration CFG_acceleration))
        \<longlonglongrightarrow> CFG_acceleration / (1 - CFG_friction)"
proof
  assume "(\<lambda>n. ball_vx (Ball_update_n n (Ball_new 0 0 1) CFG_acceleration CFG_acceleration))
            \<longlonglongrightarrow> CFG_acceleration / (1 - CFG_friction)"
  then have "(\<lambda>n. 24 * CFG_acceleration * (1 - CFG_friction ^ n))
            \<longlonglongrightarrow> CFG_acceleration / (1 - CFG_friction)"
    by (simp add: Ball_update_n_vx)
  from LIMSEQ_unique[OF this friction_power_limit]
  show False by (simp add: CFG_acceleration_def CFG_friction_def)
qed

section \<open>The grid after initialisation\<close>

lemma fold_upd_const:
  "fold (\<lambda>k f. f(k \<mapsto> v)) xs f0 k' = (if k' \<in> set xs then Some v else f0 k')"
  by (induction xs arbitrary: f0) auto

lemma init_row_apply: "init_row n c = (if 0 \<le> c \<and> c < n then Some WALL else None)"
  by (auto simp: init_row_def fold_upd_const)

lemma init_grid_apply:
  "grid (init_grid m) r = (if 0 \<le> r \<and> r < rows m then Some (init_row (cols m)) else grid m r)"
  by (auto simp: init_grid_def fold_upd_const)

lemma init_grid_fields:
  "rows (init_grid m) = rows m" "cols (init_grid m) = cols m"
  "start (init_grid m) = start m" "goal (init_grid m) = goal m"
  by (simp_all add: init_grid_def)

lemma read_init_grid:
  "0 \<le> r \<Longrightarrow> r < rows m \<Longrightarrow>
   read_cell (grid (init_grid m)) r c = Inr (if 0 \<le> c \<and> c < cols m then Some WALL else None)"
  by (simp add: read_cell_def init_grid_apply init_row_apply)

section \<open>Rows stay defined\<close>

lemma write_cell_defined:
  "g r \<noteq> None \<Longrightarrow> \<exists>g'. write_cell g r c v = Inr g'"
  by (auto simp: write_cell_def)

lemma write_cell_rows:
  "write_cell g r c v = Inr g' \<Longrightarrow> g r' \<noteq> None \<Longrightarrow> g' r' \<noteq> None"
  by (auto simp: write_cell_def split: option.splits)

lemma read_cell_defined: "g r \<noteq> None \<Longrightarrow> \<exists>v. read_cell g r c = Inr v"
  by (auto simp: read_cell_def)

lemma valid_dir_defined:
  assumes "rows_defined m"
  shows "valid_dir m current dir = Inr (dir_ok m current dir)"
proof (cases "inside m (fst current + fst dir) (snd current + snd dir)")
  case True
  then have "grid m (fst current + fst dir) \<noteq> None"
    using assms by (simp add: rows_defined_def inside_def)
  then show ?thesis using True
    by (auto simp: valid_dir_def dir_ok_def inside_def is_wall_def read_cell_def Let_def)
next
  case False
  then show ?thesis by (auto simp: valid_dir_def dir_ok_def inside_def Let_def)
qed

lemma filter_dirs_defined:
  assumes "rows_defined m"
  shows "filter_dirs m current ds = Inr (filter (dir_ok m current) ds)"
  by (induction ds) (simp_all add: valid_dir_defined[OF assms])

lemma random_index:
  assumes "random_source rnd" and "0 < n"
  shows "0 \<le> \<lfloor>rnd i * real n\<rfloor> \<and> \<lfloor>rnd i * real n\<rfloor> < int n"
proof -
  have a: "0 \<le> rnd i" and b: "rnd i < 1" using assms(1) by (auto simp: random_source_def)
  have "0 \<le> rnd i * real n" using a by simp
  moreover have "rnd i * real n < real n" using b assms(2) by simp
  ultimately show ?thesis by (simp add: floor_less_iff)
qed

lemma carve_step_cases:
  assumes rd: "rows_defined m" and rnd: "random_source rnd"
  shows "(filter (dir_ok m current) directions = [] \<and>
          carve_step rnd m current rest i = Inr (m, rest, i)) \<or>
         (\<exists>dir m'. carved m current dir m' \<and> rows_defined m' \<and>
            carve_step rnd m current rest i =
              Inr (m', (fst current + fst dir, snd current + snd dir) # current # rest, Suc i))"
proof (cases "filter (dir_ok m current) directions = []")
  case True
  then show ?thesis by (simp add: carve_step_def filter_dirs_defined[OF rd])
next
  case False
  let ?vs = "filter (dir_ok m current) directions"
  let ?k = "\<lfloor>rnd i * real (length ?vs)\<rfloor>"
  let ?dir = "?vs ! nat ?k"
  have len: "0 < length ?vs" using False by simp
  have k: "0 \<le> ?k" "?k < int (length ?vs)" using random_index[OF rnd len] by auto
  have "nat ?k < length ?vs" using k by linarith
  then have "?dir \<in> set ?vs" by (rule nth_mem)
  then have "?dir \<in> {d \<in> set directions. dir_ok m current d}" by (simp only: set_filter)
  then have dir: "?dir \<in> set directions" and ok: "dir_ok m current ?dir" by auto
  let ?wr = "fst current + fst ?dir div 2" and ?wc = "snd current + snd ?dir div 2"
  let ?nr = "fst current + fst ?dir" and ?nc = "snd current + snd ?dir"
  have ins: "inside m ?nr ?nc" using ok by (simp add: dir_ok_def)
  have "0 \<le> ?wr \<and> ?wr < rows m" "0 \<le> ?nr \<and> ?nr < rows m"
    using ins dir by (auto simp: inside_def directions_def)
  then have wdef: "grid m ?wr \<noteq> None" and ndef: "grid m ?nr \<noteq> None"
    using rd by (auto simp: rows_defined_def)
  obtain g1 where g1: "write_cell (grid m) ?wr ?wc PATH = Inr g1"
    using write_cell_defined[of "grid m" ?wr ?wc PATH] wdef by blast
  have "g1 ?nr \<noteq> None" using write_cell_rows[OF g1 ndef] .
  then obtain g2 where g2: "write_cell g1 ?nr ?nc PATH = Inr g2"
    using write_cell_defined[of g1 ?nr ?nc PATH] by blast
  let ?m' = "m\<lparr>grid := g2\<rparr>"
  have step: "carve_step rnd m current rest i = Inr (?m', (?nr, ?nc) # current # rest, Suc i)"
    using False k g1 g2 by (simp add: carve_step_def filter_dirs_defined[OF rd] Let_def)
  have "carved m current ?dir ?m'"
    unfolding carved_def using dir ok
    by (auto simp: read_write_cell[OF g2] read_write_cell[OF g1])
  moreover have "rows_defined ?m'"
    using rd write_cell_rows[OF g2] write_cell_rows[OF g1] by (simp add: rows_defined_def)
  ultimately show ?thesis using step by blast
qed

lemma carve_loop_invariant:
  assumes defined: "\<And>m stack. I m stack \<Longrightarrow> rows_defined m"
    and pop: "\<And>m cur rest. I m (cur # rest) \<Longrightarrow>
                filter (dir_ok m cur) directions = [] \<Longrightarrow> I m rest"
    and push: "\<And>m cur rest dir m'. I m (cur # rest) \<Longrightarrow> carved m cur dir m' \<Longrightarrow>
                rows_defined m' \<Longrightarrow>
                I m' ((fst cur + fst dir, snd cur + snd dir) # cur # rest)"
  shows "I m stack \<Longrightarrow> random_source rnd \<Longrightarrow>
         \<exists>m'. carve_loop rnd m stack i = Inr m' \<and> I m' []"
proof (induction rnd m stack i rule: carve_loop.induct)
  case (1 rnd m i)
  then show ?case by simp
next
  case (2 rnd m current rest i)
  note inv = \<open>I m (current # rest)\<close> and rnd = \<open>random_source rnd\<close>
  from carve_step_cases[OF defined[OF inv] rnd, of current rest i]
  show ?case
  proof (elim disjE conjE exE)
    assume e: "filter (dir_ok m current) directions = []"
      and s: "carve_step rnd m current rest i = Inr (m, rest, i)"
    have "I m rest" using pop[OF inv e] .
    from "2.IH"[OF s refl refl this rnd] show ?thesis using s by simp
  next
    fix dir m'
    assume c: "carved m current dir m'" and d: "rows_defined m'"
      and s: "carve_step rnd m current rest i =
              Inr (m', (fst current + fst dir, snd current + snd dir) # current # rest, Suc i)"
    have "I m' ((fst current + fst dir, snd current + snd dir) # current # rest)"
      using push[OF inv c d] .
    from "2.IH"[OF s refl refl this rnd] show ?thesis using s by simp
  qed
qed

section \<open>The invariant of the carving loop\<close>

lemma carved_cases:
  assumes "carved m (r, c) dir m'"
  obtains
    (up) "dir = (- 2, 0)" "inside m (r - 2) c" "is_wall m (r - 2) c"
      "\<And>r' c'. is_path m' r' c' \<longleftrightarrow> is_path m r' c' \<or> (r' = r - 1 \<and> c' = c) \<or> (r' = r - 2 \<and> c' = c)"
      "\<And>r' c'. is_wall m' r' c' \<longleftrightarrow> is_wall m r' c' \<and> \<not> (r' = r - 1 \<and> c' = c) \<and> \<not> (r' = r - 2 \<and> c' = c)"
  | (down) "dir = (2, 0)" "inside m (r + 2) c" "is_wall m (r + 2) c"
      "\<And>r' c'. is_path m' r' c' \<longleftrightarrow> is_path m r' c' \<or> (r' = r + 1 \<and> c' = c) \<or> (r' = r + 2 \<and> c' = c)"
      "\<And>r' c'. is_wall m' r' c' \<longleftrightarrow> is_wall m r' c' \<and> \<not> (r' = r + 1 \<and> c' = c) \<and> \<not> (r' = r + 2 \<and> c' = c)"
  | (left) "dir = (0, - 2)" "inside m r (c - 2)" "is_wall m r (c - 2)"
      "\<And>r' c'. is_path m' r' c' \<longleftrightarrow> is_path m r' c' \<or> (r' = r \<and> c' = c - 1) \<or> (r' = r \<and> c' = c - 2)"
      "\<And>r' c'. is_wall m' r' c' \<longleftrightarrow> is_wall m r' c' \<and> \<not> (r' = r \<and> c' = c - 1) \<and> \<not> (r' = r \<and> c' = c - 2)"
  | (right) "dir = (0, 2)" "inside m r (c + 2)" "is_wall m r (c + 2)"
      "\<And>r' c'. is_path m' r' c' \<longleftrightarrow> is_path m r' c' \<or> (r' = r \<and> c' = c + 1) \<or> (r' = r \<and> c' = c + 2)"
      "\<And>r' c'. is_wall m' r' c' \<longleftrightarrow> is_wall m r' c' \<and> \<not> (r' = r \<and> c' = c + 1) \<and> \<not> (r' = r \<and> c' = c + 2)"
proof -
  from assms have d: "dir = (- 2, 0) \<or> dir = (2, 0) \<or> dir = (0, - 2) \<or> dir = (0, 2)"
    by (auto simp: carved_def directions_def)
  from assms have ok: "inside m (r + fst dir) (c + snd dir)" "is_wall m (r + fst dir) (c + snd dir)"
    by (auto simp: carved_def dir_ok_def)
  from assms have rd: "\<And>r' c'. read_cell (grid m') r' c' =
        (if (r' = r + fst dir div 2 \<and> c' = c + snd dir div 2) \<or>
            (r' = r + fst dir \<and> c' = c + snd dir)
         then Inr (Some PATH) else read_cell (grid m) r' c')"
    by (simp add: carved_def)
  from d show thesis
  proof (elim disjE)
    assume e: "dir = (- 2, 0)"
    show thesis
      by (rule up[OF e]) (use ok rd in \<open>auto simp: e is_path_def is_wall_def\<close>)
  next
    assume e: "dir = (2, 0)"
    show thesis
      by (rule down[OF e]) (use ok rd in \<open>auto simp: e is_path_def is_wall_def\<close>)
  next
    assume e: "dir = (0, - 2)"
    show thesis
      by (rule left[OF e]) (use ok rd in \<open>auto simp: e is_path_def is_wall_def\<close>)
  next
    assume e: "dir = (0, 2)"
    show thesis
      by (rule right[OF e]) (use ok rd in \<open>auto simp: e is_path_def is_wall_def\<close>)
  qed
qed

lemma carved_fields:
  assumes "carved m cur dir m'"
  shows "rows m' = rows m" "cols m' = cols m" "start m' = start m" "goal m' = goal m"
    "inside m' = inside m"
  using assms by (auto simp: carved_def inside_def fun_eq_iff)

lemma wall_not_path: "is_wall m r c \<Longrightarrow> \<not> is_path m r c"
  by (simp add: is_wall_def is_path_def)

lemma carved_cells_ok:
  assumes "carved m (r, c) dir m'" "cells_ok m"
  shows "cells_ok m'"
  using assms(1)
  by (cases rule: carved_cases)
     (use assms(2) carved_fields[OF assms(1)] in \<open>auto simp: cells_ok_def\<close>)

lemma carved_paths_inside:
  assumes "carved m (r, c) dir m'" "paths_inside m" "is_path m r c" "odd r" "odd c"
  shows "paths_inside m'"
proof -
  have cur: "inside m r c" using assms(2,3) by (simp add: paths_inside_def)
  note f = carved_fields[OF assms(1)]
  from assms(1) show ?thesis
    by (cases rule: carved_cases)
       (use assms(2,4,5) cur in \<open>auto simp: paths_inside_def f inside_def\<close>)
qed

lemma carved_links_joined:
  assumes "carved m (r, c) dir m'" "links_joined m" "is_path m r c" "odd r" "odd c"
  shows "links_joined m'"
  using assms(1)
  by (cases rule: carved_cases)
     (use assms(2-) in \<open>auto simp: links_joined_def\<close>)

lemma carved_stack_ok:
  assumes "carved m (r, c) dir m'" "stack_ok m ((r, c) # rest)"
  shows "stack_ok m' ((r + fst dir, c + snd dir) # (r, c) # rest)"
  using assms(1)
  by (cases rule: carved_cases)
     (use assms(2) in \<open>auto simp: stack_ok_def\<close>)

lemma carved_closed_rooms:
  assumes "carved m (r, c) dir m'" "closed_rooms m ((r, c) # rest)" "odd r" "odd c"
  shows "closed_rooms m' ((r + fst dir, c + snd dir) # (r, c) # rest)"
proof -
  note f = carved_fields[OF assms(1)]
  have old: "is_path m r' c' \<Longrightarrow> odd r' \<Longrightarrow> odd c' \<Longrightarrow> (r', c') \<notin> set ((r, c) # rest) \<Longrightarrow>
             d \<in> set directions \<Longrightarrow> inside m (r' + fst d) (c' + snd d) \<Longrightarrow>
             is_path m (r' + fst d) (c' + snd d)" for r' c' d
    using assms(2) unfolding closed_rooms_def by blast
  from assms(1) show ?thesis
  proof (cases rule: carved_cases)
    case up
    show ?thesis unfolding closed_rooms_def f
    proof (intro allI impI ballI, elim conjE)
      fix r' c' d
      assume a: "is_path m' r' c'" "odd r'" "odd c'"
        "(r', c') \<notin> set ((r + fst dir, c + snd dir) # (r, c) # rest)"
        "d \<in> set directions" "inside m (r' + fst d) (c' + snd d)"
      have "is_path m r' c'" using a(1-4) assms(3,4) by (auto simp: up)
      moreover have "(r', c') \<notin> set ((r, c) # rest)" using a(4) by auto
      ultimately have "is_path m (r' + fst d) (c' + snd d)" using old a by blast
      then show "is_path m' (r' + fst d) (c' + snd d)" by (simp add: up)
    qed
  next
    case down
    show ?thesis unfolding closed_rooms_def f
    proof (intro allI impI ballI, elim conjE)
      fix r' c' d
      assume a: "is_path m' r' c'" "odd r'" "odd c'"
        "(r', c') \<notin> set ((r + fst dir, c + snd dir) # (r, c) # rest)"
        "d \<in> set directions" "inside m (r' + fst d) (c' + snd d)"
      have "is_path m r' c'" using a(1-4) assms(3,4) by (auto simp: down)
      moreover have "(r', c') \<notin> set ((r, c) # rest)" using a(4) by auto
      ultimately have "is_path m (r' + fst d) (c' + snd d)" using old a by blast
      then show "is_path m' (r' + fst d) (c' + snd d)" by (simp add: down)
    qed
  next
    case left
    show ?thesis unfolding closed_rooms_def f
    proof (intro allI impI ballI, elim conjE)
      fix r' c' d
      assume a: "is_path m' r' c'" "odd r'" "odd c'"
        "(r', c') \<notin> set ((r + fst dir, c + snd dir) # (r, c) # rest)"
        "d \<in> set directions" "inside m (r' + fst d) (c' + snd d)"
      have "is_path m r' c'" using a(1-4) assms(3,4) by (auto simp: left)
      moreover have "(r', c') \<notin> set ((r, c) # rest)" using a(4) by auto
      ultimately have "is_path m (r' + fst d) (c' + snd d)" using old a by blast
      then show "is_path m' (r' + fst d) (c' + snd d)" by (simp add: left)
    qed
  next
    case right
    show ?thesis unfolding closed_rooms_def f
    proof (intro allI impI ballI, elim conjE)
      fix r' c' d
      assume a: "is_path m' r' c'" "odd r'" "odd c'"
        "(r', c') \<notin> set ((r + fst dir, c + snd dir) # (r, c) # rest)"
        "d \<in> set directions" "inside m (r' + fst d) (c' + snd d)"
      have "is_path m r' c'" using a(1-4) assms(3,4) by (auto simp: right)
      moreover have "(r', c') \<notin> set ((r, c) # rest)" using a(4) by auto
      ultimately have "is_path m (r' + fst d) (c' + snd d)" using old a by blast
      then show "is_path m' (r' + fst d) (c' + snd d)" by (simp add: right)
    qed
  qed
qed

lemma reachable_mono:
  assumes "reachable m r c" "start m' = start m"
    and "\<And>r c. is_path m r c \<Longrightarrow> is_path m' r c"
  shows "reachable m' r c"
  using assms(1)
proof induction
  case reach_start
  then show ?case using assms(2) assms(3) reachable.reach_start[of m'] by simp
next
  case (reach_up r c)
  then show ?case using assms(3) reachable.reach_up by blast
next
  case (reach_down r c)
  then show ?case using assms(3) reachable.reach_down by blast
next
  case (reach_left r c)
  then show ?case using assms(3) reachable.reach_left by blast
next
  case (reach_right r c)
  then show ?case using assms(3) reachable.reach_right by blast
qed

lemma carved_connected:
  assumes "carved m (r, c) dir m'" "connected m" "is_path m r c"
  shows "connected m'"
proof -
  note f = carved_fields[OF assms(1)]
  have cur: "reachable m r c" using assms(2,3) by (simp add: connected_def)
  from assms(1) show ?thesis
  proof (cases rule: carved_cases)
    case up
    have mono: "reachable m r' c' \<Longrightarrow> reachable m' r' c'" for r' c'
      by (rule reachable_mono[where m = m]) (auto simp: f up)
    have w: "reachable m' (r - 1) c"
      using reach_up[OF mono[OF cur]] by (simp add: up)
    have n: "reachable m' (r - 2) c" using reach_up[OF w] by (simp add: up)
    show ?thesis unfolding connected_def
      using w n mono assms(2) by (auto simp: up connected_def)
  next
    case down
    have mono: "reachable m r' c' \<Longrightarrow> reachable m' r' c'" for r' c'
      by (rule reachable_mono[where m = m]) (auto simp: f down)
    have w: "reachable m' (r + 1) c"
      using reach_down[OF mono[OF cur]] by (simp add: down)
    have n: "reachable m' (r + 2) c" using reach_down[OF w] by (simp add: down ac_simps)
    show ?thesis unfolding connected_def
      using w n mono assms(2) by (auto simp: down connected_def)
  next
    case left
    have mono: "reachable m r' c' \<Longrightarrow> reachable m' r' c'" for r' c'
      by (rule reachable_mono[where m = m]) (auto simp: f left)
    have w: "reachable m' r (c - 1)"
      using reach_left[OF mono[OF cur]] by (simp add: left)
    have n: "reachable m' r (c - 2)" using reach_left[OF w] by (simp add: left)
    show ?thesis unfolding connected_def
      using w n mono assms(2) by (auto simp: left connected_def)
  next
    case right
    have mono: "reachable m r' c' \<Longrightarrow> reachable m' r' c'" for r' c'
      by (rule reachable_mono[where m = m]) (auto simp: f right)
    have w: "reachable m' r (c + 1)"
      using reach_right[OF mono[OF cur]] by (simp add: right)
    have n: "reachable m' r (c + 2)" using reach_right[OF w] by (simp add: right ac_simps)
    show ?thesis unfolding connected_def
      using w n mono assms(2) by (auto simp: right connected_def)
  qed
qed

lemma finite_paths:
  assumes "paths_inside m"
  shows "finite {(r, c). is_path m r c}"
proof -
  have "(r, c) \<in> {0..rows m} \<times> {0..cols m}" if "is_path m r c" for r c
    using assms[unfolded paths_inside_def, rule_format, OF that] by (simp add: inside_def)
  then have "{(r, c). is_path m r c} \<subseteq> {0..rows m} \<times> {0..cols m}"
    by auto
  then show ?thesis by (rule finite_subset) simp
qed

lemma finite_rooms_passages:
  assumes "paths_inside m"
  shows "finite (rooms m)" "finite (passages m)"
  by (rule finite_subset[OF _ finite_paths[OF assms]]; auto simp: rooms_def passages_def)+

lemma carved_tree_count:
  assumes "carved m (r, c) dir m'" "tree_count m" "paths_inside m" "links_joined m"
    "is_path m r c" "odd r" "odd c"
  shows "tree_count m'"
proof -
  note fin = finite_rooms_passages[OF assms(3)]
  have lj: "is_path m r' c' \<Longrightarrow> even r' \<Longrightarrow> is_path m (r' - 1) c' \<and> is_path m (r' + 1) c'"
    "is_path m r' c' \<Longrightarrow> even c' \<Longrightarrow> is_path m r' (c' - 1) \<and> is_path m r' (c' + 1)" for r' c'
    using assms(4) unfolding links_joined_def by blast+
  from assms(1) have "\<exists>w n. rooms m' = insert n (rooms m) \<and> n \<notin> rooms m \<and>
                        passages m' = insert w (passages m) \<and> w \<notin> passages m"
  proof (cases rule: carved_cases)
    case up
    have "\<not> is_path m (r - 2) c" using up(3) by (rule wall_not_path)
    moreover from this have "\<not> is_path m (r - 1) c" using lj(1)[of "r - 1" c] assms(6) by auto
    ultimately show ?thesis
      using assms(6,7)
      by (intro exI[of _ "(r - 1, c)"] exI[of _ "(r - 2, c)"])
         (auto simp: rooms_def passages_def up)
  next
    case down
    have "\<not> is_path m (r + 2) c" using down(3) by (rule wall_not_path)
    moreover from this have "\<not> is_path m (r + 1) c" using lj(1)[of "r + 1" c] assms(6) by (auto simp: ac_simps)
    ultimately show ?thesis
      using assms(6,7)
      by (intro exI[of _ "(r + 1, c)"] exI[of _ "(r + 2, c)"])
         (auto simp: rooms_def passages_def down ac_simps)
  next
    case left
    have "\<not> is_path m r (c - 2)" using left(3) by (rule wall_not_path)
    moreover from this have "\<not> is_path m r (c - 1)" using lj(2)[of r "c - 1"] assms(7) by auto
    ultimately show ?thesis
      using assms(6,7)
      by (intro exI[of _ "(r, c - 1)"] exI[of _ "(r, c - 2)"])
         (auto simp: rooms_def passages_def left)
  next
    case right
    have "\<not> is_path m r (c + 2)" using right(3) by (rule wall_not_path)
    moreover from this have "\<not> is_path m r (c + 1)" using lj(2)[of r "c + 1"] assms(7) by (auto simp: ac_simps)
    ultimately show ?thesis
      using assms(6,7)
      by (intro exI[of _ "(r, c + 1)"] exI[of _ "(r, c + 2)"])
         (auto simp: rooms_def passages_def right ac_simps)
  qed
  then obtain w n where "rooms m' = insert n (rooms m)" "n \<notin> rooms m"
    "passages m' = insert w (passages m)" "w \<notin> passages m" by blast
  then show ?thesis using assms(2) fin by (simp add: tree_count_def)
qed

lemma carved_path_mono:
  assumes "carved m (r, c) dir m'" "is_path m r' c'"
  shows "is_path m' r' c'"
  using assms(1) by (cases rule: carved_cases) (use assms(2) in auto)

lemma carve_inv_push:
  assumes inv: "carve_inv m (cur # rest)" and c: "carved m cur dir m'" and d: "rows_defined m'"
  shows "carve_inv m' ((fst cur + fst dir, snd cur + snd dir) # cur # rest)"
proof -
  obtain r c where cur: "cur = (r, c)" by (cases cur)
  note c' = c[unfolded cur]
  have so: "stack_ok m ((r, c) # rest)" using inv by (simp add: carve_inv_def cur)
  then have p: "is_path m r c" and o: "odd r" "odd c" by (auto simp: stack_ok_def)
  have "cells_ok m'" using carved_cells_ok[OF c'] inv by (simp add: carve_inv_def)
  moreover have "start m' = (1, 1)" using carved_fields(3)[OF c] inv by (simp add: carve_inv_def)
  moreover have "is_path m' 1 1" using carved_path_mono[OF c'] inv by (simp add: carve_inv_def)
  moreover have "paths_inside m'"
    using carved_paths_inside[OF c' _ p o] inv by (simp add: carve_inv_def)
  moreover have "links_joined m'"
    using carved_links_joined[OF c' _ p o] inv by (simp add: carve_inv_def)
  moreover have "stack_ok m' ((r + fst dir, c + snd dir) # (r, c) # rest)"
    using carved_stack_ok[OF c' so] .
  moreover have "closed_rooms m' ((r + fst dir, c + snd dir) # (r, c) # rest)"
    using carved_closed_rooms[OF c' _ o] inv by (simp add: carve_inv_def cur)
  moreover have "connected m'"
    using carved_connected[OF c' _ p] inv by (simp add: carve_inv_def)
  moreover have "tree_count m'"
    using carved_tree_count[OF c' _ _ _ p o] inv by (simp add: carve_inv_def)
  ultimately show ?thesis using d by (simp add: carve_inv_def cur)
qed

lemma carve_inv_pop:
  assumes inv: "carve_inv m (cur # rest)" and e: "filter (dir_ok m cur) directions = []"
  shows "carve_inv m rest"
proof -
  have so: "stack_ok m rest" using inv by (simp add: carve_inv_def stack_ok_def)
  have co: "cells_ok m" and cr: "closed_rooms m (cur # rest)"
    using inv by (simp_all add: carve_inv_def)
  have nd: "\<not> dir_ok m cur d" if "d \<in> set directions" for d
    using e that by (simp add: filter_empty_conv)
  have top: "is_path m (fst cur + fst d) (snd cur + snd d)"
    if "d \<in> set directions" "inside m (fst cur + fst d) (snd cur + snd d)" for d
  proof -
    have "\<not> is_wall m (fst cur + fst d) (snd cur + snd d)"
      using nd[OF that(1)] that(2) by (simp add: dir_ok_def)
    moreover have "is_path m (fst cur + fst d) (snd cur + snd d) \<or>
                   is_wall m (fst cur + fst d) (snd cur + snd d)"
      using co that(2) unfolding cells_ok_def inside_def by simp
    ultimately show ?thesis by blast
  qed
  have "closed_rooms m rest"
    unfolding closed_rooms_def
  proof (intro allI impI ballI, elim conjE)
    fix r c d
    assume a: "is_path m r c" "odd r" "odd c" "(r, c) \<notin> set rest"
      "d \<in> set directions" "inside m (r + fst d) (c + snd d)"
    show "is_path m (r + fst d) (c + snd d)"
    proof (cases "(r, c) = cur")
      case True
      then show ?thesis using top[OF a(5)] a(6) by auto
    next
      case False
      then have "(r, c) \<notin> set (cur # rest)" using a(4) by simp
      then show ?thesis using cr a unfolding closed_rooms_def by blast
    qed
  qed
  then show ?thesis using inv so by (simp add: carve_inv_def)
qed

lemma carve_loop_inv:
  assumes "carve_inv m stack" "random_source rnd"
  shows "\<exists>m'. carve_loop rnd m stack i = Inr m' \<and> carve_inv m' []"
proof (rule carve_loop_invariant[where I = carve_inv, OF _ _ _ assms])
  show "rows_defined m" if "carve_inv m stack" for m stack
    using that by (simp add: carve_inv_def)
  show "carve_inv m rest"
    if "carve_inv m (cur # rest)" "filter (dir_ok m cur) directions = []" for m cur rest
    using that by (rule carve_inv_pop)
  show "carve_inv m' ((fst cur + fst dir, snd cur + snd dir) # cur # rest)"
    if "carve_inv m (cur # rest)" "carved m cur dir m'" "rows_defined m'" for m cur rest dir m'
    using that by (rule carve_inv_push)
qed

lemma carve_loop_frame:
  assumes "rows_defined m" "random_source rnd"
  shows "\<exists>m'. carve_loop rnd m stack i = Inr m' \<and> rows_defined m' \<and> rows m' = rows m \<and>
              cols m' = cols m \<and> start m' = start m \<and> goal m' = goal m"
proof -
  have "same_frame m m stack" using assms(1) by (simp add: same_frame_def)
  from carve_loop_invariant[where I = "same_frame m", OF _ _ _ this assms(2), of i]
  show ?thesis by (auto simp: same_frame_def carved_fields)
qed

section \<open>The maze before the loop\<close>

lemma blank_start:
  assumes "2 \<le> rs"
  shows "\<exists>g. write_cell (grid (init_grid (blank_maze cs rs))) 1 1 PATH = Inr g \<and>
             (\<forall>r c. read_cell g r c =
                (if r = 1 \<and> c = 1 then Inr (Some PATH)
                 else if 0 \<le> r \<and> r < rs then Inr (if 0 \<le> c \<and> c < cs then Some WALL else None)
                 else Inl TypeError)) \<and>
             rows_defined (init_grid (blank_maze cs rs)\<lparr>grid := g\<rparr>)"
proof -
  let ?m0 = "init_grid (blank_maze cs rs)"
  have f: "rows (blank_maze cs rs) = rs" "cols (blank_maze cs rs) = cs"
    "grid (blank_maze cs rs) = Map.empty"
    by (simp_all add: blank_maze_def)
  have "grid ?m0 1 \<noteq> None" using assms by (simp add: init_grid_apply f)
  then obtain g where g: "write_cell (grid ?m0) 1 1 PATH = Inr g"
    using write_cell_defined[of "grid ?m0" 1 1 PATH] by blast
  have rd: "read_cell (grid ?m0) r c =
            (if 0 \<le> r \<and> r < rs then Inr (if 0 \<le> c \<and> c < cs then Some WALL else None)
             else Inl TypeError)" for r c
    by (simp add: read_cell_def init_grid_apply init_row_apply f)
  have "rows_defined (?m0\<lparr>grid := g\<rparr>)"
    using write_cell_rows[OF g]
    by (simp add: rows_defined_def init_grid_fields init_grid_apply f)
  then show ?thesis using g by (auto simp: read_write_cell[OF g] rd)
qed

lemma Maze_new_blank: "Maze_new rnd cs rs = generate rnd (blank_maze cs rs)"
  by (simp add: Maze_new_def blank_maze_def)

lemma initial_inv:
  assumes "3 \<le> cs" "3 \<le> rs"
    and rd: "\<And>r c. read_cell g r c =
                (if r = 1 \<and> c = 1 then Inr (Some PATH)
                 else if 0 \<le> r \<and> r < rs then Inr (if 0 \<le> c \<and> c < cs then Some WALL else None)
                 else Inl TypeError)"
    and def: "rows_defined (init_grid (blank_maze cs rs)\<lparr>grid := g\<rparr>)"
  shows "carve_inv (init_grid (blank_maze cs rs)\<lparr>grid := g\<rparr>) [(1, 1)]"
proof -
  let ?m = "init_grid (blank_maze cs rs)\<lparr>grid := g\<rparr>"
  have f: "rows ?m = rs" "cols ?m = cs" "start ?m = (1, 1)" "grid ?m = g"
    by (simp_all add: init_grid_fields blank_maze_def)
  have p: "is_path ?m r c \<longleftrightarrow> r = 1 \<and> c = 1" for r c
    by (simp add: is_path_def f rd)
  have w: "is_wall ?m r c \<longleftrightarrow> \<not> (r = 1 \<and> c = 1) \<and> 0 \<le> r \<and> r < rs \<and> 0 \<le> c \<and> c < cs" for r c
    by (auto simp: is_wall_def f rd)
  have "cells_ok ?m" unfolding cells_ok_def p w f by auto
  moreover have "paths_inside ?m" unfolding paths_inside_def p inside_def f using assms(1,2) by auto
  moreover have "links_joined ?m" unfolding links_joined_def p by auto
  moreover have "stack_ok ?m [(1, 1)]" unfolding stack_ok_def p by simp
  moreover have "closed_rooms ?m [(1, 1)]" unfolding closed_rooms_def p by simp
  moreover have "reachable ?m 1 1" using reach_start[of ?m] by (simp add: f p)
  then have "connected ?m" unfolding connected_def p by simp
  moreover have "rooms ?m = {(1, 1)}" "passages ?m = {}"
    unfolding rooms_def passages_def p by auto
  then have "tree_count ?m" by (simp add: tree_count_def)
  ultimately show ?thesis using def by (simp add: carve_inv_def f p)
qed

lemma generate_carved:
  assumes "3 \<le> cs" "3 \<le> rs" "random_source rnd"
  shows "\<exists>m. carve_inv m [] \<and> rows m = rs \<and> cols m = cs \<and> start m = (1, 1) \<and>
             goal m = (cs - 2, rs - 2) \<and> Maze_new rnd cs rs = relocate_goal m"
proof -
  let ?m0 = "init_grid (blank_maze cs rs)"
  from blank_start[of rs cs] assms(2) obtain g where
    g: "write_cell (grid ?m0) 1 1 PATH = Inr g"
    and rd: "\<And>r c. read_cell g r c =
                (if r = 1 \<and> c = 1 then Inr (Some PATH)
                 else if 0 \<le> r \<and> r < rs then Inr (if 0 \<le> c \<and> c < cs then Some WALL else None)
                 else Inl TypeError)"
    and def: "rows_defined (?m0\<lparr>grid := g\<rparr>)"
    by auto
  let ?m1 = "?m0\<lparr>grid := g\<rparr>"
  have inv: "carve_inv ?m1 [(1, 1)]" using initial_inv[OF assms(1,2) rd def] .
  from carve_loop_inv[OF inv assms(3), of 0] obtain m where
    m: "carve_loop rnd ?m1 [(1, 1)] 0 = Inr m" and minv: "carve_inv m []" by blast
  from carve_loop_frame[OF def assms(3), of "[(1, 1)]" 0] m
  have fr: "rows m = rs" "cols m = cs" "start m = (1, 1)" "goal m = (cs - 2, rs - 2)"
    by (auto simp: init_grid_fields blank_maze_def)
  have "Maze_new rnd cs rs = relocate_goal m"
    by (simp add: Maze_new_blank generate_def Let_def g m del: carve_loop.simps)
  then show ?thesis using minv fr by blast
qed

section \<open>Consequences of the invariant at the end of the loop\<close>

lemma first_column_rooms:
  assumes "carve_inv m []"
  shows "inside m (1 + 2 * int i) 1 \<Longrightarrow> is_path m (1 + 2 * int i) 1"
proof (induction i)
  case 0
  then show ?case using assms by (simp add: carve_inv_def)
next
  case (Suc i)
  have ins: "inside m (1 + 2 * int i) 1" using Suc.prems by (simp add: inside_def)
  have p: "is_path m (1 + 2 * int i) 1" using Suc.IH[OF ins] .
  have "closed_rooms m []" using assms by (simp add: carve_inv_def)
  then have "inside m (1 + 2 * int i + fst d) (1 + snd d) \<longrightarrow>
             is_path m (1 + 2 * int i + fst d) (1 + snd d)" if "d \<in> set directions" for d
    using p that unfolding closed_rooms_def by simp
  from this[of "(2, 0)"] Suc.prems show ?case by (simp add: directions_def algebra_simps)
qed

lemma all_rooms_aux:
  assumes "carve_inv m []"
  shows "inside m (1 + 2 * int i) (1 + 2 * int j) \<Longrightarrow> is_path m (1 + 2 * int i) (1 + 2 * int j)"
proof (induction j)
  case 0
  then show ?case using first_column_rooms[OF assms, of i] by simp
next
  case (Suc j)
  have ins: "inside m (1 + 2 * int i) (1 + 2 * int j)" using Suc.prems by (simp add: inside_def)
  have p: "is_path m (1 + 2 * int i) (1 + 2 * int j)" using Suc.IH[OF ins] .
  have "closed_rooms m []" using assms by (simp add: carve_inv_def)
  then have "inside m (1 + 2 * int i + fst d) (1 + 2 * int j + snd d) \<longrightarrow>
             is_path m (1 + 2 * int i + fst d) (1 + 2 * int j + snd d)" if "d \<in> set directions" for d
    using p that unfolding closed_rooms_def by simp
  from this[of "(0, 2)"] Suc.prems show ?case by (simp add: directions_def algebra_simps)
qed

lemma all_rooms_carved:
  assumes "carve_inv m []" "inside m r c" "odd r" "odd c"
  shows "is_path m r c"
proof -
  have "0 < r" "0 < c" using assms(2) by (simp_all add: inside_def)
  moreover obtain k l where kl: "r = 2 * k + 1" "c = 2 * l + 1"
    using assms(3,4) by (auto elim!: oddE)
  ultimately have "0 \<le> k" "0 \<le> l" by simp_all
  then have eq: "r = 1 + 2 * int (nat k)" "c = 1 + 2 * int (nat l)" using kl by simp_all
  have "inside m (1 + 2 * int (nat k)) (1 + 2 * int (nat l))" using assms(2) unfolding eq .
  then have "is_path m (1 + 2 * int (nat k)) (1 + 2 * int (nat l))"
    by (rule all_rooms_aux[OF assms(1)])
  then show ?thesis unfolding eq .
qed

lemma border_walls:
  assumes "carve_inv m []" "0 \<le> r" "r < rows m" "0 \<le> c" "c < cols m"
    and "r = 0 \<or> r = rows m - 1 \<or> c = 0 \<or> c = cols m - 1"
  shows "is_wall m r c"
proof -
  have "is_path m r c \<or> is_wall m r c"
    using assms(1-5) unfolding carve_inv_def cells_ok_def by blast
  moreover have "\<not> is_path m r c"
    using assms(1,6) unfolding carve_inv_def paths_inside_def inside_def by auto
  ultimately show ?thesis by blast
qed

section \<open>Counting path cells and links\<close>

lemma all_cells_set:
  "set (all_cells m) = {(r, c). 0 \<le> r \<and> r < rows m \<and> 0 \<le> c \<and> c < cols m}"
  by (auto simp: all_cells_def)

lemma all_cells_distinct: "distinct (all_cells m)"
  by (simp add: all_cells_def distinct_product)

lemma path_cells_card:
  assumes "paths_inside m"
  shows "length (path_cells m) = card (rooms m) + card (passages m)"
proof -
  have ins: "inside m r c" if "is_path m r c" for r c
    using assms that by (simp add: paths_inside_def)
  have bnd: "0 \<le> r \<and> r < rows m \<and> 0 \<le> c \<and> c < cols m" if "is_path m r c" for r c
    using ins[OF that] by (simp add: inside_def)
  have "set (path_cells m) = rooms m \<union> passages m"
    by (auto simp: path_cells_def all_cells_set rooms_def passages_def dest: bnd)
  moreover have "distinct (path_cells m)"
    by (simp add: path_cells_def all_cells_distinct)
  ultimately have "length (path_cells m) = card (rooms m \<union> passages m)"
    by (metis distinct_card)
  also have "\<dots> = card (rooms m) + card (passages m)"
    by (rule card_Un_disjoint) (use finite_rooms_passages[OF assms] in \<open>auto simp: rooms_def passages_def\<close>)
  finally show ?thesis .
qed

lemma path_links_distinct: "distinct (path_links m)"
proof -
  have "distinct (map (\<lambda>(r, c). ((r, c), (r, c + 1))) (all_cells m))"
    by (rule distinct_map[THEN iffD2]) (auto simp: all_cells_distinct inj_on_def)
  moreover have "distinct (map (\<lambda>(r, c). ((r, c), (r + 1, c))) (all_cells m))"
    by (rule distinct_map[THEN iffD2]) (auto simp: all_cells_distinct inj_on_def)
  ultimately show ?thesis by (auto simp: path_links_def)
qed

lemma path_links_mem:
  "((r, c), (r', c')) \<in> set (path_links m) \<longleftrightarrow>
     is_path m r c \<and> is_path m r' c' \<and> 0 \<le> r \<and> r < rows m \<and> 0 \<le> c \<and> c < cols m \<and>
     ((r' = r \<and> c' = c + 1) \<or> (r' = r + 1 \<and> c' = c))"
  by (auto simp: path_links_def all_cells_set)

lemma path_links_set:
  assumes pi: "paths_inside m" and lj: "links_joined m"
  shows "set (path_links m) = entering ` passages m \<union> leaving ` passages m"
proof -
  have ins: "inside m r c \<and> (odd r \<or> odd c)" if "is_path m r c" for r c
    using pi that by (simp add: paths_inside_def)
  have jv: "is_path m (r - 1) c \<and> is_path m (r + 1) c" if "is_path m r c" "even r" for r c
    using lj that unfolding links_joined_def by blast
  have jh: "is_path m r (c - 1) \<and> is_path m r (c + 1)" if "is_path m r c" "even c" for r c
    using lj that unfolding links_joined_def by blast
  show ?thesis
  proof (intro set_eqI iffI)
    fix e assume e: "e \<in> set (path_links m)"
    obtain r c r' c' where ee: "e = ((r, c), (r', c'))" by (metis surj_pair)
    from e have p: "is_path m r c" "is_path m r' c'"
      and dir: "(r' = r \<and> c' = c + 1) \<or> (r' = r + 1 \<and> c' = c)"
      by (auto simp: ee path_links_mem)
    from dir show "e \<in> entering ` passages m \<union> leaving ` passages m"
    proof
      assume h: "r' = r \<and> c' = c + 1"
      have "odd r" using ins[OF p(1)] ins[OF p(2)] h by auto
      show ?thesis
      proof (cases "even c")
        case True
        then have "(r, c) \<in> passages m" "leaving (r, c) = e"
          using p \<open>odd r\<close> h by (auto simp: passages_def leaving_def ee)
        then show ?thesis by blast
      next
        case False
        then have "(r, c + 1) \<in> passages m" "entering (r, c + 1) = e"
          using p \<open>odd r\<close> h by (auto simp: passages_def entering_def ee)
        then show ?thesis by blast
      qed
    next
      assume v: "r' = r + 1 \<and> c' = c"
      have "odd c" using ins[OF p(1)] ins[OF p(2)] v by auto
      show ?thesis
      proof (cases "even r")
        case True
        then have "(r, c) \<in> passages m" "leaving (r, c) = e"
          using p v by (auto simp: passages_def leaving_def ee)
        then show ?thesis by blast
      next
        case False
        then have "(r + 1, c) \<in> passages m" "entering (r + 1, c) = e"
          using p v by (auto simp: passages_def entering_def ee)
        then show ?thesis by blast
      qed
    qed
  next
    fix e assume "e \<in> entering ` passages m \<union> leaving ` passages m"
    then obtain r c where q: "is_path m r c" "even r \<or> even c"
      and e: "e = entering (r, c) \<or> e = leaving (r, c)"
      by (auto simp: passages_def)
    have inr: "0 < r" "r < rows m - 1" "0 < c" "c < cols m - 1"
      using ins[OF q(1)] by (simp_all add: inside_def)
    show "e \<in> set (path_links m)"
    proof (cases "even r")
      case True
      then show ?thesis using e q(1) jv[OF q(1) True] inr
        by (auto simp: entering_def leaving_def path_links_mem)
    next
      case False
      then have ec: "even c" using q(2) by simp
      show ?thesis using e q(1) jh[OF q(1) ec] inr False
        by (auto simp: entering_def leaving_def path_links_mem)
    qed
  qed
qed

lemma path_links_card:
  assumes pi: "paths_inside m" and lj: "links_joined m"
  shows "length (path_links m) = 2 * card (passages m)"
proof -
  have ins: "odd r \<or> odd c" if "is_path m r c" for r c
    using pi that by (simp add: paths_inside_def)
  have fin: "finite (passages m)" using finite_rooms_passages[OF pi] by simp
  have ie: "inj_on entering (passages m)"
    by (rule inj_onI) (auto simp: entering_def split: if_splits)
  have il: "inj_on leaving (passages m)"
    by (rule inj_onI) (auto simp: leaving_def split: if_splits)
  have dj: "entering ` passages m \<inter> leaving ` passages m = {}"
  proof (rule ccontr)
    assume "entering ` passages m \<inter> leaving ` passages m \<noteq> {}"
    then obtain e where e: "e \<in> entering ` passages m" "e \<in> leaving ` passages m"
      by blast
    from e(1) obtain p where p: "p \<in> passages m" "e = entering p" by blast
    from e(2) obtain q where q': "q \<in> passages m" "e = leaving q" by blast
    have pq: "p \<in> passages m" "q \<in> passages m" "entering p = leaving q"
      using p q' by simp_all
    obtain r c where q: "q = (r, c)" by (cases q)
    have qp: "is_path m r c" "even r \<or> even c" using pq(2) by (auto simp: passages_def q)
    have "snd (entering p) = p" by (simp add: entering_def)
    then have "p = snd (leaving q)" using pq(3) by simp
    then have "odd (fst p) \<and> odd (snd p)"
      using qp ins[OF qp(1)] by (auto simp: leaving_def q split: if_splits)
    then show False using pq(1) by (auto simp: passages_def)
  qed
  have "length (path_links m) = card (set (path_links m))"
    using path_links_distinct by (simp add: distinct_card)
  also have "\<dots> = card (entering ` passages m) + card (leaving ` passages m)"
    unfolding path_links_set[OF pi lj] by (rule card_Un_disjoint) (use fin dj in auto)
  also have "\<dots> = 2 * card (passages m)"
    by (simp add: card_image ie il)
  finally show ?thesis .
qed

lemma tree_links:
  assumes "carve_inv m []"
  shows "length (path_links m) + 1 = length (path_cells m)"
proof -
  have pi: "paths_inside m" and lj: "links_joined m" and tc: "tree_count m"
    using assms by (simp_all add: carve_inv_def)
  show ?thesis
    using tc unfolding path_links_card[OF pi lj] path_cells_card[OF pi] tree_count_def by simp
qed

lemma random_source_first_choice: "random_source first_choice"
  by (simp add: random_source_def first_choice_def)

section \<open>The goal after generation\<close>

lemma relocate_goal_path:
  assumes "is_path m (snd (goal m)) (fst (goal m))"
  shows "relocate_goal m = Inr m"
  using assms by (simp add: relocate_goal_def is_path_def Let_def)

lemma relocate_goal_left:
  assumes "is_wall m (snd (goal m)) (fst (goal m))"
    and "is_path m (snd (goal m)) (fst (goal m) - 1)"
  shows "relocate_goal m = Inr (m\<lparr>goal := (fst (goal m) - 1, snd (goal m))\<rparr>)"
  using assms by (simp add: relocate_goal_def is_path_def is_wall_def Let_def)

lemma relocate_goal_up:
  assumes "is_wall m (snd (goal m)) (fst (goal m))"
    and "\<not> is_path m (snd (goal m)) (fst (goal m) - 1)"
    and "is_path m (snd (goal m) - 1) (fst (goal m))"
  shows "relocate_goal m = Inr (m\<lparr>goal := (fst (goal m), snd (goal m) - 1)\<rparr>)"
  using assms
  by (auto simp: relocate_goal_def is_path_def is_wall_def Let_def read_cell_def
           split: option.splits)

lemma relocate_goal_total:
  assumes "rows_defined m" "3 \<le> rows m" "snd (goal m) = rows m - 2"
  shows "\<exists>m'. relocate_goal m = Inr m' \<and> rows m' = rows m \<and> cols m' = cols m \<and>
              grid m' = grid m \<and> start m' = start m \<and>
              (goal m' = goal m \<or> goal m' = (fst (goal m) - 1, snd (goal m)) \<or>
               goal m' = (fst (goal m), snd (goal m) - 1))"
proof -
  have "grid m (rows m - 2) \<noteq> None" "grid m (rows m - 3) \<noteq> None"
    using assms(1,2) by (simp_all add: rows_defined_def)
  then obtain rw rw' where "grid m (rows m - 2) = Some rw" "grid m (rows m - 2 - 1) = Some rw'"
    by auto
  then show ?thesis
    by (simp add: relocate_goal_def Let_def assms(3) read_cell_def)
qed

lemma Maze_new_perfect:
  assumes "odd cs" "odd rs" "5 \<le> cs" "5 \<le> rs" "random_source rnd"
  shows "\<exists>m. Maze_new rnd cs rs = Inr m \<and> carve_inv m [] \<and> rows m = rs \<and> cols m = cs \<and>
             start m = (1, 1) \<and> goal m = (cs - 2, rs - 2)"
proof -
  from generate_carved[of cs rs rnd] assms obtain m where
    m: "carve_inv m []" "rows m = rs" "cols m = cs" "start m = (1, 1)"
       "goal m = (cs - 2, rs - 2)" "Maze_new rnd cs rs = relocate_goal m"
    by auto
  have "inside m (rs - 2) (cs - 2)" using assms(3,4) m(2,3) by (simp add: inside_def)
  then have "is_path m (rs - 2) (cs - 2)"
    using all_rooms_carved[OF m(1)] assms(1,2) by simp
  then have "relocate_goal m = Inr m" by (intro relocate_goal_path) (simp add: m(5))
  then show ?thesis using m by auto
qed

lemma Maze_new_total:
  assumes "3 \<le> rs" "random_source rnd"
  shows "\<exists>m. Maze_new rnd cs rs = Inr m \<and> rows m = rs \<and> cols m = cs"
proof -
  let ?m0 = "init_grid (blank_maze cs rs)"
  from blank_start[of rs cs] assms(1) obtain g where
    g: "write_cell (grid ?m0) 1 1 PATH = Inr g"
    and def: "rows_defined (?m0\<lparr>grid := g\<rparr>)"
    by auto
  from carve_loop_frame[OF def assms(2), of "[(1, 1)]" 0] obtain m where
    m: "carve_loop rnd (?m0\<lparr>grid := g\<rparr>) [(1, 1)] 0 = Inr m" "rows_defined m"
       "rows m = rs" "cols m = cs" "goal m = (cs - 2, rs - 2)"
    by (auto simp: init_grid_fields blank_maze_def)
  have "Maze_new rnd cs rs = relocate_goal m"
    by (simp add: Maze_new_blank generate_def Let_def g m(1) del: carve_loop.simps)
  moreover from relocate_goal_total[OF m(2)] assms(1) m(3,5)
  obtain m' where "relocate_goal m = Inr m'" "rows m' = rows m" "cols m' = cols m" by auto
  ultimately show ?thesis using m(3,4) by simp
qed

section \<open>The generated maze\<close>

text \<open>
  C1. For odd \<open>cols, rows \<ge> 5\<close> and every random source, the constructor returns a
  maze in which every cell strictly inside the border with odd row and odd column is a
  path cell, every path cell is reached by the flood fill from the start cell, and
  the number of links between adjacent path cells is the number of path cells minus
  one.
\<close>

theorem generate_perfect_maze:
  assumes "odd cs" and "odd rs" and "5 \<le> cs" and "5 \<le> rs" and "random_source rnd"
  shows "\<exists>m. Maze_new rnd cs rs = Inr m \<and> rows m = rs \<and> cols m = cs \<and> start m = (1, 1) \<and>
             (\<forall>r c. inside m r c \<and> odd r \<and> odd c \<longrightarrow> is_path m r c) \<and>
             (\<forall>r c. is_path m r c \<longrightarrow> reachable m r c) \<and>
             length (path_links m) + 1 = length (path_cells m)"
proof -
  from Maze_new_perfect[OF assms] obtain m where
    m: "Maze_new rnd cs rs = Inr m" "carve_inv m []"
       "rows m = rs" "cols m = cs" "start m = (1, 1)" by blast
  have "connected m" using m(2) by (simp add: carve_inv_def)
  then show ?thesis
    using m(1,3-5) all_rooms_carved[OF m(2)] tree_links[OF m(2)]
    by (auto simp: connected_def)
qed

text \<open>
  The 5 by 5 maze of the random source that always returns 0.
\<close>

theorem generate_perfect_maze_witness:
  "odd (5::int) \<and> (5::int) \<le> 5 \<and> random_source first_choice \<and>
   (\<exists>m. Maze_new first_choice 5 5 = Inr m \<and> rows m = 5 \<and> cols m = 5 \<and> start m = (1, 1) \<and>
        (\<forall>r c. inside m r c \<and> odd r \<and> odd c \<longrightarrow> is_path m r c) \<and>
        (\<forall>r c. is_path m r c \<longrightarrow> reachable m r c) \<and>
        length (path_links m) + 1 = length (path_cells m))"
  using generate_perfect_maze[of 5 5 first_choice] random_source_first_choice by simp

text \<open>
  C4. For odd \<open>cols, rows \<ge> 5\<close> and every random source, every cell of row 0, of row
  \<open>rows - 1\<close>, of column 0 and of column \<open>cols - 1\<close> of the generated grid is a wall.
\<close>

theorem generate_border_walls:
  assumes "odd cs" and "odd rs" and "5 \<le> cs" and "5 \<le> rs" and "random_source rnd"
  shows "\<exists>m. Maze_new rnd cs rs = Inr m \<and> rows m = rs \<and> cols m = cs \<and>
             (\<forall>r c. 0 \<le> r \<and> r < rs \<and> 0 \<le> c \<and> c < cs \<and>
                    (r = 0 \<or> r = rs - 1 \<or> c = 0 \<or> c = cs - 1) \<longrightarrow> is_wall m r c)"
proof -
  from Maze_new_perfect[OF assms] obtain m where
    m: "Maze_new rnd cs rs = Inr m" "carve_inv m []" "rows m = rs" "cols m = cs" by blast
  show ?thesis using m border_walls[OF m(2)] by auto
qed

text \<open>
  The border of the 5 by 5 maze.
\<close>

theorem generate_border_walls_witness:
  "odd (5::int) \<and> (5::int) \<le> 5 \<and> random_source first_choice \<and>
   (\<exists>m. Maze_new first_choice 5 5 = Inr m \<and> rows m = 5 \<and> cols m = 5 \<and>
        (\<forall>r c. 0 \<le> r \<and> r < 5 \<and> 0 \<le> c \<and> c < 5 \<and>
               (r = 0 \<or> r = 4 \<or> c = 0 \<or> c = 4) \<longrightarrow> is_wall m r c))"
  using generate_border_walls[of 5 5 first_choice] random_source_first_choice by simp

text \<open>
  C5. For odd \<open>cols, rows \<ge> 5\<close> and every random source, the goal stored in the maze
  after generation is a path cell; it is the designated cell \<open>(cols - 2, rows - 2)\<close>.
  The relocation step itself, on any maze whose goal cell is a wall: it moves the goal
  to the cell on its left when that is a path cell, and otherwise to the cell above
  when that is a path cell.
\<close>

theorem generate_goal_path:
  assumes "odd cs" and "odd rs" and "5 \<le> cs" and "5 \<le> rs" and "random_source rnd"
  shows "(\<exists>m. Maze_new rnd cs rs = Inr m \<and> goal m = (cs - 2, rs - 2) \<and>
              is_path m (snd (goal m)) (fst (goal m))) \<and>
         (\<forall>m. is_wall m (snd (goal m)) (fst (goal m)) \<and>
               is_path m (snd (goal m)) (fst (goal m) - 1) \<longrightarrow>
               relocate_goal m = Inr (m\<lparr>goal := (fst (goal m) - 1, snd (goal m))\<rparr>)) \<and>
         (\<forall>m. is_wall m (snd (goal m)) (fst (goal m)) \<and>
               \<not> is_path m (snd (goal m)) (fst (goal m) - 1) \<and>
               is_path m (snd (goal m) - 1) (fst (goal m)) \<longrightarrow>
               relocate_goal m = Inr (m\<lparr>goal := (fst (goal m), snd (goal m) - 1)\<rparr>))"
proof -
  from Maze_new_perfect[OF assms] obtain m where
    m: "Maze_new rnd cs rs = Inr m" "carve_inv m []" "rows m = rs" "cols m = cs"
       "goal m = (cs - 2, rs - 2)" by blast
  have "inside m (rs - 2) (cs - 2)" using assms(3,4) m(3,4) by (simp add: inside_def)
  then have "is_path m (rs - 2) (cs - 2)"
    using all_rooms_carved[OF m(2)] assms(1,2) by simp
  then show ?thesis
    using m(1,5) relocate_goal_left relocate_goal_up by auto
qed

text \<open>
  The goal of the 5 by 5 maze, and the relocation to the left on the probe maze.
\<close>

theorem generate_goal_path_witness:
  "odd (5::int) \<and> (5::int) \<le> 5 \<and> random_source first_choice \<and>
   (\<exists>m. Maze_new first_choice 5 5 = Inr m \<and> goal m = (3, 3) \<and> is_path m 3 3) \<and>
   is_wall probe_maze 1 2 \<and> is_path probe_maze 1 1 \<and>
   relocate_goal probe_maze = Inr (probe_maze\<lparr>goal := (1, 1)\<rparr>)"
proof -
  have g: "goal probe_maze = (2, 1)" by (simp add: probe_maze_def)
  have w: "is_wall probe_maze 1 2" "is_path probe_maze 1 1"
    by (simp_all add: is_wall_def is_path_def read_cell_def probe_maze_def)
  from generate_goal_path[of 5 5 first_choice] random_source_first_choice
  have a: "\<exists>m. Maze_new first_choice 5 5 = Inr m \<and> goal m = (3, 3) \<and> is_path m 3 3"
    and b: "is_wall probe_maze (snd (goal probe_maze)) (fst (goal probe_maze)) \<and>
            is_path probe_maze (snd (goal probe_maze)) (fst (goal probe_maze) - 1) \<longrightarrow>
            relocate_goal probe_maze =
              Inr (probe_maze\<lparr>goal := (fst (goal probe_maze) - 1, snd (goal probe_maze))\<rparr>)"
    by auto
  show ?thesis using a b w random_source_first_choice by (simp add: g)
qed

text \<open>
  C3, amended. The constructor validates nothing: for every \<open>rows \<ge> 3\<close>, every \<open>cols\<close>
  (even or odd, below 5 or not) and every random source it returns a maze, and it
  stores both dimensions as they were given.
\<close>

theorem Maze_new_accepts:
  assumes "3 \<le> rs" and "random_source rnd"
  shows "\<exists>m. Maze_new rnd cs rs = Inr m \<and> rows m = rs \<and> cols m = cs"
  using assms by (rule Maze_new_total)

text \<open>
  The constructor at 4 by 4.
\<close>

theorem Maze_new_accepts_witness:
  "(3::int) \<le> 4 \<and> random_source first_choice \<and>
   (\<exists>m. Maze_new first_choice 4 4 = Inr m \<and> rows m = 4 \<and> cols m = 4)"
  using Maze_new_accepts[of 4 first_choice 4] random_source_first_choice by simp

text \<open>
  \<open>new Maze(4, 4)\<close> raises nothing: it returns a maze with 4 columns and 4 rows whose
  goal stays at \<open>(2, 2)\<close>.
\<close>

theorem Maze_new_rejects_counterexample:
  "map_sum id cols (Maze_new first_choice 4 4) = Inr 4 \<and>
   map_sum id rows (Maze_new first_choice 4 4) = Inr 4 \<and>
   map_sum id goal (Maze_new first_choice 4 4) = Inr (2, 2)"
  by code_simp

section \<open>A collision pass\<close>

lemma checkCollision_scan:
  "checkCollision m b csz =
     checkCollision_rows csz (scan_rows b csz) (scan_cols b csz) (m, b)"
  by (simp add: checkCollision_def scan_rows_def scan_cols_def Let_def)



lemma checkCollision_cols_clear:
  assumes "rows_defined m" "0 \<le> ball_radius b"
    and "\<And>c. c \<in> set cs \<Longrightarrow> solid m r c \<Longrightarrow>
           ball_radius b \<le> distance b (real_of_int c * csz) (real_of_int r * csz) csz"
  shows "checkCollision_cols csz r cs (m, b) = Inr (m, b)"
  using assms(3)
proof (induction cs)
  case Nil
  then show ?case by simp
next
  case (Cons c cs)
  have ih: "checkCollision_cols csz r cs (m, b) = Inr (m, b)"
    using Cons by simp
  show ?case
  proof (cases "r < 0 \<or> r \<ge> rows m \<or> c < 0 \<or> c \<ge> cols m")
    case True
    then have "solid m r c" unfolding solid_def by blast
    then have "resolveCollision m b (real_of_int c * csz) (real_of_int r * csz) csz = (m, b)"
      using Cons.prems[of c] assms(2) by (intro resolveCollision_no_overlap) simp_all
    then show ?thesis using True ih by simp
  next
    case False
    then have "grid m r \<noteq> None" using assms(1) by (simp add: rows_defined_def)
    then obtain rw where rw: "grid m r = Some rw" by auto
    show ?thesis
    proof (cases "rw c = Some WALL")
      case True
      then have "solid m r c" by (simp add: solid_def is_wall_def read_cell_def rw)
      then have "resolveCollision m b (real_of_int c * csz) (real_of_int r * csz) csz = (m, b)"
        using Cons.prems[of c] assms(2) by (intro resolveCollision_no_overlap) simp_all
      then show ?thesis using False True ih by (simp add: read_cell_def rw)
    next
      case w: False
      then show ?thesis using False ih by (simp add: read_cell_def rw)
    qed
  qed
qed

lemma checkCollision_rows_clear:
  assumes "rows_defined m" "0 \<le> ball_radius b"
    and "\<And>r c. r \<in> set rs \<Longrightarrow> c \<in> set cs \<Longrightarrow> solid m r c \<Longrightarrow>
           ball_radius b \<le> distance b (real_of_int c * csz) (real_of_int r * csz) csz"
  shows "checkCollision_rows csz rs cs (m, b) = Inr (m, b)"
  using assms(3)
proof (induction rs)
  case Nil
  then show ?case by simp
next
  case (Cons r rs)
  have "checkCollision_cols csz r cs (m, b) = Inr (m, b)"
    by (rule checkCollision_cols_clear[OF assms(1,2)]) (use Cons.prems in simp)
  moreover have "checkCollision_rows csz rs cs (m, b) = Inr (m, b)"
    using Cons by simp
  ultimately show ?case by simp
qed






section \<open>The session\<close>

lemma checkCollision_cols_total:
  assumes "rows_defined m"
  shows "\<exists>b'. checkCollision_cols csz r cs (m, b) = Inr (m, b')"
proof (induction cs arbitrary: b)
  case Nil
  then show ?case by simp
next
  case (Cons c cs)
  obtain b1 where r: "resolveCollision m b (real_of_int c * csz) (real_of_int r * csz) csz = (m, b1)"
    using resolveCollision_maze[of m b] by (metis prod.collapse)
  show ?case
  proof (cases "r < 0 \<or> r \<ge> rows m \<or> c < 0 \<or> c \<ge> cols m")
    case True
    then show ?thesis using Cons[of b1] by (simp add: r)
  next
    case False
    then have "grid m r \<noteq> None" using assms by (simp add: rows_defined_def)
    then obtain rw where rw: "grid m r = Some rw" by auto
    show ?thesis using False Cons[of b1] Cons[of b] by (simp add: r read_cell_def rw)
  qed
qed

lemma checkCollision_rows_total:
  assumes "rows_defined m"
  shows "\<exists>b'. checkCollision_rows csz rs cs (m, b) = Inr (m, b')"
proof (induction rs arbitrary: b)
  case Nil
  then show ?case by simp
next
  case (Cons r rs)
  obtain b1 where "checkCollision_cols csz r cs (m, b) = Inr (m, b1)"
    using checkCollision_cols_total[OF assms] by blast
  then show ?case using Cons[of b1] by simp
qed

lemma checkCollision_total:
  assumes "rows_defined m"
  shows "\<exists>b'. checkCollision m b csz = Inr (m, b')"
  unfolding checkCollision_scan by (rule checkCollision_rows_total[OF assms])

lemma Game_update_unfold:
  assumes "maze g = Some m" "ball g = Some b"
    and "checkCollision m
           (Ball_update b (fst (input g) * CFG_acceleration) (snd (input g) * CFG_acceleration))
           (cellSize g) = Inr (m2, b2)"
  shows "Game_update g =
           Inr (if euclidean (ball_x b2, ball_y b2) (cell_centre (goal m2) (cellSize g))
                   < 0.5 * cellSize g
                then g\<lparr>maze := Some m2, ball := Some b2, state := GAMEOVER\<rparr>
                else g\<lparr>maze := Some m2, ball := Some b2\<rparr>)"
  unfolding Game_update_def Let_def
  by (simp add: assms euclidean_def cell_centre_def power2_eq_square endGame_def)

lemma loop_playing:
  assumes "state g = PLAYING" "maze g = Some m" "ball g = Some b" "rows_defined m"
  shows "\<exists>g' b'. loop g = Inr g' \<and>
           checkCollision m
             (Ball_update b (fst (input g) * CFG_acceleration) (snd (input g) * CFG_acceleration))
             (cellSize g) = Inr (m, b') \<and>
           maze g' = Some m \<and> ball g' = Some b' \<and> cellSize g' = cellSize g \<and>
           (euclidean (ball_x b', ball_y b') (cell_centre (goal m) (cellSize g)) < 0.5 * cellSize g
              \<longrightarrow> state g' = GAMEOVER) \<and>
           (\<not> euclidean (ball_x b', ball_y b') (cell_centre (goal m) (cellSize g)) < 0.5 * cellSize g
              \<longrightarrow> state g' = PLAYING)"
proof -
  let ?b1 = "Ball_update b (fst (input g) * CFG_acceleration) (snd (input g) * CFG_acceleration)"
  obtain b' where c: "checkCollision m ?b1 (cellSize g) = Inr (m, b')"
    using checkCollision_total[OF assms(4)] by blast
  show ?thesis
    using assms(1) c by (simp add: loop_def Game_update_unfold[OF assms(2,3) c] assms(1))
qed

lemma loop_stopped:
  assumes "state g \<noteq> PLAYING"
  shows "loop g = Inr g"
  using assms by (simp add: loop_def)

lemma frames_stopped:
  assumes "state g \<noteq> PLAYING"
  shows "frames n g = Inr g"
  by (induction n) (simp_all add: loop_stopped[OF assms])

lemma Ball_update_rest: "Ball_update (Ball_new px py rad) 0 0 = Ball_new px py rad"
  by (simp add: Ball_update_def Ball_new_def Let_def)

lemma start_ball_scan:
  assumes "0 < csz"
  shows "scan_rows (Ball_new (1 * csz + csz / 2) (1 * csz + csz / 2) (csz * CFG_ballRadiusRatio)) csz = [1]"
    and "scan_cols (Ball_new (1 * csz + csz / 2) (1 * csz + csz / 2) (csz * CFG_ballRadiusRatio)) csz = [1]"
proof -
  have lo: "(1 * csz + csz / 2 - csz * CFG_ballRadiusRatio) / csz = 23 / 20"
    using assms by (simp add: CFG_ballRadiusRatio_def field_simps)
  have hi: "(1 * csz + csz / 2 + csz * CFG_ballRadiusRatio) / csz = 37 / 20"
    using assms by (simp add: CFG_ballRadiusRatio_def field_simps)
  have f: "\<lfloor>23 / 20 :: real\<rfloor> = 1" "\<lfloor>37 / 20 :: real\<rfloor> = 1" by simp_all
  show "scan_rows (Ball_new (1 * csz + csz / 2) (1 * csz + csz / 2) (csz * CFG_ballRadiusRatio)) csz = [1]"
    unfolding scan_rows_def Ball_new_def by (simp only: Ball.simps lo hi f) simp
  show "scan_cols (Ball_new (1 * csz + csz / 2) (1 * csz + csz / 2) (csz * CFG_ballRadiusRatio)) csz = [1]"
    unfolding scan_cols_def Ball_new_def by (simp only: Ball.simps lo hi f) simp
qed

lemma start_far_from_goal:
  assumes "0 < csz" "2 \<le> gx \<or> 2 \<le> gy"
  shows "\<not> euclidean (1 * csz + csz / 2, 1 * csz + csz / 2) (cell_centre (gx, gy) csz) < 0.5 * csz"
proof -
  let ?dx = "1 * csz + csz / 2 - (real_of_int gx * csz + csz / 2)"
  let ?dy = "1 * csz + csz / 2 - (real_of_int gy * csz + csz / 2)"
  have e: "euclidean (1 * csz + csz / 2, 1 * csz + csz / 2) (cell_centre (gx, gy) csz)
           = sqrt (?dx\<^sup>2 + ?dy\<^sup>2)"
    by (simp add: euclidean_def cell_centre_def)
  from assms(2) have "csz \<le> sqrt (?dx\<^sup>2 + ?dy\<^sup>2)"
  proof
    assume "2 \<le> gx"
    then have "1 \<le> real_of_int (gx - 1)" by simp
    then have "1 * csz \<le> real_of_int (gx - 1) * csz" using assms(1) by (intro mult_right_mono) simp_all
    also have "\<dots> = - ?dx" by (simp add: algebra_simps)
    also have "\<dots> \<le> \<bar>?dx\<bar>" by simp
    also have "\<dots> \<le> sqrt (?dx\<^sup>2 + ?dy\<^sup>2)" by (rule real_sqrt_ge_abs1)
    finally show ?thesis by simp
  next
    assume "2 \<le> gy"
    then have "1 \<le> real_of_int (gy - 1)" by simp
    then have "1 * csz \<le> real_of_int (gy - 1) * csz" using assms(1) by (intro mult_right_mono) simp_all
    also have "\<dots> = - ?dy" by (simp add: algebra_simps)
    also have "\<dots> \<le> \<bar>?dy\<bar>" by simp
    also have "\<dots> \<le> sqrt (?dx\<^sup>2 + ?dy\<^sup>2)" by (rule real_sqrt_ge_abs2)
    finally show ?thesis by simp
  qed
  then show ?thesis unfolding e using assms(1) by simp
qed

lemma Maze_new_start_cell:
  assumes "3 \<le> cs" "3 \<le> rs" "random_source rnd"
  shows "\<exists>m. Maze_new rnd cs rs = Inr m \<and> rows_defined m \<and> is_path m 1 1 \<and>
             rows m = rs \<and> cols m = cs \<and> start m = (1, 1) \<and>
             (goal m = (cs - 2, rs - 2) \<or> goal m = (cs - 3, rs - 2) \<or> goal m = (cs - 2, rs - 3))"
proof -
  from generate_carved[OF assms] obtain m0 where
    m0: "carve_inv m0 []" "rows m0 = rs" "cols m0 = cs" "start m0 = (1, 1)"
        "goal m0 = (cs - 2, rs - 2)" "Maze_new rnd cs rs = relocate_goal m0"
    by blast
  have rd: "rows_defined m0" and p: "is_path m0 1 1" using m0(1) by (simp_all add: carve_inv_def)
  from relocate_goal_total[OF rd] assms(2) m0(2,5) obtain m where
    m: "relocate_goal m0 = Inr m" "rows m = rows m0" "cols m = cols m0" "grid m = grid m0"
       "start m = start m0"
       "goal m = goal m0 \<or> goal m = (fst (goal m0) - 1, snd (goal m0)) \<or>
        goal m = (fst (goal m0), snd (goal m0) - 1)"
    by auto
  have "rows_defined m" using rd m(2,4) by (simp add: rows_defined_def)
  moreover have "is_path m 1 1" using p m(4) by (simp add: is_path_def)
  moreover have "goal m = (cs - 2, rs - 2) \<or> goal m = (cs - 3, rs - 2) \<or> goal m = (cs - 2, rs - 3)"
    using m(6) by (auto simp: m0(5))
  ultimately show ?thesis using m0(2-4,6) m(1-3,5) by simp
qed

lemma startGame_playing:
  assumes "3 \<le> game_cols g" "3 \<le> game_rows g" "5 \<le> game_cols g \<or> 5 \<le> game_rows g"
    and "0 < cellSize g" "random_source rnd"
  shows "\<exists>g' m bl. startGame rnd now g = Inr g' \<and>
           Maze_new rnd (game_cols g) (game_rows g) = Inr m \<and>
           state g' = PLAYING \<and> startTime g' = now \<and> input g' = (0, 0) \<and>
           maze g' = Some m \<and> ball g' = Some bl \<and> start m = (1, 1) \<and>
           (ball_x bl, ball_y bl) = cell_centre (start m) (cellSize g) \<and>
           ball_vx bl = 0 \<and> ball_vy bl = 0 \<and>
           ball_radius bl = cellSize g * CFG_ballRadiusRatio"
proof -
  let ?cs = "cellSize g"
  let ?b = "Ball_new (1 * ?cs + ?cs / 2) (1 * ?cs + ?cs / 2) (?cs * CFG_ballRadiusRatio)"
  from Maze_new_start_cell[OF assms(1,2,5)] obtain m where
    m: "Maze_new rnd (game_cols g) (game_rows g) = Inr m" "rows_defined m" "is_path m 1 1"
       "rows m = game_rows g" "cols m = game_cols g" "start m = (1, 1)"
       "goal m = (game_cols g - 2, game_rows g - 2) \<or> goal m = (game_cols g - 3, game_rows g - 2) \<or>
        goal m = (game_cols g - 2, game_rows g - 3)"
    by blast
  have ns: "\<not> solid m 1 1"
    using m(3,4,5) assms(1,2) by (simp add: solid_def is_path_def is_wall_def)
  have rad: "0 \<le> ball_radius ?b"
    using assms(4) by (simp add: Ball_new_def CFG_ballRadiusRatio_def)
  have cc: "checkCollision m ?b ?cs = Inr (m, ?b)"
    unfolding checkCollision_scan start_ball_scan[OF assms(4)]
    by (rule checkCollision_rows_clear[OF m(2) rad]) (use ns in simp)
  have g2: "2 \<le> fst (goal m) \<or> 2 \<le> snd (goal m)" using m(7) assms(1-3) by auto
  have far: "\<not> euclidean (1 * ?cs + ?cs / 2, 1 * ?cs + ?cs / 2) (cell_centre (goal m) ?cs) < 0.5 * ?cs"
    using start_far_from_goal[OF assms(4) g2] by simp
  let ?g0 = "g\<lparr>maze := Some m, ball := Some ?b, state := PLAYING, startTime := now, input := (0, 0)\<rparr>"
  have bx: "ball_x ?b = 1 * ?cs + ?cs / 2" "ball_y ?b = 1 * ?cs + ?cs / 2"
    by (simp_all add: Ball_new_def)
  have cs0: "cellSize ?g0 = ?cs" by simp
  have nf: "\<not> euclidean (ball_x ?b, ball_y ?b) (cell_centre (goal m) (cellSize ?g0))
              < 0.5 * cellSize ?g0"
    unfolding bx cs0 by (rule far)
  have z: "fst (input ?g0) * CFG_acceleration = 0" "snd (input ?g0) * CFG_acceleration = 0"
    by simp_all
  have cc0: "checkCollision m
               (Ball_update ?b (fst (input ?g0) * CFG_acceleration)
                  (snd (input ?g0) * CFG_acceleration))
               (cellSize ?g0) = Inr (m, ?b)"
    unfolding z cs0 Ball_update_rest by (rule cc)
  have "Game_update ?g0 =
          Inr (if euclidean (ball_x ?b, ball_y ?b) (cell_centre (goal m) (cellSize ?g0))
                  < 0.5 * cellSize ?g0
               then ?g0\<lparr>maze := Some m, ball := Some ?b, state := GAMEOVER\<rparr>
               else ?g0\<lparr>maze := Some m, ball := Some ?b\<rparr>)"
    by (rule Game_update_unfold[OF _ _ cc0]) simp_all
  then have u: "Game_update ?g0 = Inr ?g0" using nf by simp
  have "loop ?g0 = Inr ?g0" using u by (simp add: loop_def)
  then have "startGame rnd now g = Inr ?g0"
    by (simp add: startGame_def m(1,6) Let_def)
  then show ?thesis using m(1,6) by (simp add: Ball_new_def cell_centre_def)
qed

text \<open>
  C9. \<open>startGame\<close>, from any state, for \<open>cols, rows \<ge> 3\<close>, one of them at least 5, and
  a positive cell size: the game is \<open>PLAYING\<close>, the start time is the current time
  (elapsed time 0), the ball is at the centre of the start cell (1, 1) with zero
  velocity and radius \<open>cellSize * 0.35\<close>. A frame in \<open>PLAYING\<close> with a non-zero cell size
  leaves the ball as the physics step and the collision pass give it, and ends in
  \<open>GAMEOVER\<close> when the Euclidean distance of that ball to the centre of the goal cell is
  less than half a cell, in \<open>PLAYING\<close> otherwise. Outside \<open>PLAYING\<close> a frame changes
  nothing, whatever the number of frames: no physics, no collision, no goal check, no
  second transition.
\<close>

theorem session_state_machine:
  "(3 \<le> game_cols g \<and> 3 \<le> game_rows g \<and> (5 \<le> game_cols g \<or> 5 \<le> game_rows g) \<and>
    0 < cellSize g \<and> random_source rnd \<longrightarrow>
      (\<exists>g' m bl. startGame rnd now g = Inr g' \<and>
         Maze_new rnd (game_cols g) (game_rows g) = Inr m \<and>
         state g' = PLAYING \<and> startTime g' = now \<and> input g' = (0, 0) \<and>
         maze g' = Some m \<and> ball g' = Some bl \<and> start m = (1, 1) \<and>
         (ball_x bl, ball_y bl) = cell_centre (start m) (cellSize g) \<and>
         ball_vx bl = 0 \<and> ball_vy bl = 0 \<and>
         ball_radius bl = cellSize g * CFG_ballRadiusRatio)) \<and>
   (state h = PLAYING \<and> maze h = Some m \<and> ball h = Some b \<and> rows_defined m \<and>
    cellSize h \<noteq> 0 \<longrightarrow>
      (\<exists>h' b'. loop h = Inr h' \<and>
         checkCollision m
           (Ball_update b (fst (input h) * CFG_acceleration) (snd (input h) * CFG_acceleration))
           (cellSize h) = Inr (m, b') \<and>
         maze h' = Some m \<and> ball h' = Some b' \<and> cellSize h' = cellSize h \<and>
         (euclidean (ball_x b', ball_y b') (cell_centre (goal m) (cellSize h)) < 0.5 * cellSize h
            \<longrightarrow> state h' = GAMEOVER) \<and>
         (\<not> euclidean (ball_x b', ball_y b') (cell_centre (goal m) (cellSize h)) < 0.5 * cellSize h
            \<longrightarrow> state h' = PLAYING))) \<and>
   (state k \<noteq> PLAYING \<longrightarrow> loop k = Inr k \<and> frames n k = Inr k)"
proof (intro conjI impI)
  assume "3 \<le> game_cols g \<and> 3 \<le> game_rows g \<and> (5 \<le> game_cols g \<or> 5 \<le> game_rows g) \<and>
    0 < cellSize g \<and> random_source rnd"
  then show "\<exists>g' m bl. startGame rnd now g = Inr g' \<and>
         Maze_new rnd (game_cols g) (game_rows g) = Inr m \<and>
         state g' = PLAYING \<and> startTime g' = now \<and> input g' = (0, 0) \<and>
         maze g' = Some m \<and> ball g' = Some bl \<and> start m = (1, 1) \<and>
         (ball_x bl, ball_y bl) = cell_centre (start m) (cellSize g) \<and>
         ball_vx bl = 0 \<and> ball_vy bl = 0 \<and>
         ball_radius bl = cellSize g * CFG_ballRadiusRatio"
    by (intro startGame_playing) simp_all
next
  assume "state h = PLAYING \<and> maze h = Some m \<and> ball h = Some b \<and> rows_defined m \<and>
    cellSize h \<noteq> 0"
  then show "\<exists>h' b'. loop h = Inr h' \<and>
         checkCollision m
           (Ball_update b (fst (input h) * CFG_acceleration) (snd (input h) * CFG_acceleration))
           (cellSize h) = Inr (m, b') \<and>
         maze h' = Some m \<and> ball h' = Some b' \<and> cellSize h' = cellSize h \<and>
         (euclidean (ball_x b', ball_y b') (cell_centre (goal m) (cellSize h)) < 0.5 * cellSize h
            \<longrightarrow> state h' = GAMEOVER) \<and>
         (\<not> euclidean (ball_x b', ball_y b') (cell_centre (goal m) (cellSize h)) < 0.5 * cellSize h
            \<longrightarrow> state h' = PLAYING)"
    by (intro loop_playing) simp_all
next
  assume "state k \<noteq> PLAYING"
  then show "loop k = Inr k" by (rule loop_stopped)
next
  assume "state k \<noteq> PLAYING"
  then show "frames n k = Inr k" by (rule frames_stopped)
qed

text \<open>
  One frame of the game on the goal maze.
\<close>

lemma goal_maze_facts:
  "rows_defined goal_maze" "\<not> solid goal_maze 1 1" "goal goal_maze = (1, 1)"
  by (simp_all add: goal_maze_def probe_maze_def rows_defined_def solid_def is_wall_def
        read_cell_def)

lemma goal_frame_ball:
  "Ball_update (Ball_new 50 60 9) (1 * CFG_acceleration) (0 * CFG_acceleration) = ball_after"
  by (simp add: Ball_update_def Ball_new_def ball_after_def Let_def CFG_acceleration_def
        CFG_friction_def)

lemma goal_frame_collision:
  "checkCollision goal_maze ball_after 40 = Inr (goal_maze, ball_after)"
proof -
  have s: "scan_rows ball_after 40 = [1]" "scan_cols ball_after 40 = [1]"
    by (simp_all add: scan_rows_def scan_cols_def ball_after_def)
  have r: "0 \<le> ball_radius ball_after" by (simp add: ball_after_def)
  show ?thesis
    unfolding checkCollision_scan s
    by (rule checkCollision_rows_clear[OF goal_maze_facts(1) r]) (use goal_maze_facts(2) in simp)
qed

lemma goal_frame_distance:
  "euclidean (ball_x ball_after, ball_y ball_after) (cell_centre (goal goal_maze) 40) < 0.5 * 40"
proof -
  have "euclidean (ball_x ball_after, ball_y ball_after) (cell_centre (goal goal_maze) 40)
        = \<bar>50.48 - 60\<bar>"
    by (simp add: euclidean_def cell_centre_def goal_maze_facts(3) ball_after_def)
  then show ?thesis by simp
qed

text \<open>
  Starting the idle game of 5 by 5 cells of size 40 at time 1000 puts the ball at
  (60, 60) with radius 14. One frame of the game on the goal maze moves the ball from
  (50, 60) to (50.48, 60), which is 9.52 from the centre (60, 60) of the goal cell, less
  than 20: the frame ends in \<open>GAMEOVER\<close>, and the frames after it change nothing.
\<close>

theorem session_state_machine_witness:
  "3 \<le> game_cols idle_game \<and> 3 \<le> game_rows idle_game \<and>
   (5 \<le> game_cols idle_game \<or> 5 \<le> game_rows idle_game) \<and> 0 < cellSize idle_game \<and>
   random_source first_choice \<and> state idle_game = IDLE \<and>
   (\<exists>g' m bl. startGame first_choice 1000 idle_game = Inr g' \<and>
      state g' = PLAYING \<and> startTime g' = 1000 \<and> maze g' = Some m \<and> ball g' = Some bl \<and>
      ball_x bl = 60 \<and> ball_y bl = 60 \<and> ball_vx bl = 0 \<and> ball_vy bl = 0 \<and>
      ball_radius bl = 14) \<and>
   state goal_game = PLAYING \<and> maze goal_game = Some goal_maze \<and>
   ball goal_game = Some (Ball_new 50 60 9) \<and> rows_defined goal_maze \<and>
   cellSize goal_game \<noteq> 0 \<and>
   (\<exists>h'. loop goal_game = Inr h' \<and> ball h' = Some ball_after \<and> state h' = GAMEOVER \<and>
      loop h' = Inr h' \<and> frames 3 h' = Inr h')"
proof -
  have i: "game_cols idle_game = 5" "game_rows idle_game = 5" "cellSize idle_game = 40"
    "state idle_game = IDLE"
    by (simp_all add: idle_game_def)
  have p: "state goal_game = PLAYING" "maze goal_game = Some goal_maze"
    "ball goal_game = Some (Ball_new 50 60 9)" "cellSize goal_game = 40"
    "input goal_game = (1, 0)"
    by (simp_all add: goal_game_def)
  have r: "(40::real) * CFG_ballRadiusRatio = 14" by (simp add: CFG_ballRadiusRatio_def)
  have a: "\<exists>g' m bl. startGame first_choice 1000 idle_game = Inr g' \<and>
      state g' = PLAYING \<and> startTime g' = 1000 \<and> maze g' = Some m \<and> ball g' = Some bl \<and>
      ball_x bl = 60 \<and> ball_y bl = 60 \<and> ball_vx bl = 0 \<and> ball_vy bl = 0 \<and>
      ball_radius bl = 14"
  proof -
    have "\<exists>g' m bl. startGame first_choice 1000 idle_game = Inr g' \<and>
         Maze_new first_choice (game_cols idle_game) (game_rows idle_game) = Inr m \<and>
         state g' = PLAYING \<and> startTime g' = 1000 \<and> input g' = (0, 0) \<and>
         maze g' = Some m \<and> ball g' = Some bl \<and> start m = (1, 1) \<and>
         (ball_x bl, ball_y bl) = cell_centre (start m) (cellSize idle_game) \<and>
         ball_vx bl = 0 \<and> ball_vy bl = 0 \<and>
         ball_radius bl = cellSize idle_game * CFG_ballRadiusRatio"
      by (rule session_state_machine[THEN conjunct1, rule_format])
         (simp add: i random_source_first_choice)
    then obtain g' m bl where
      s: "startGame first_choice 1000 idle_game = Inr g'" "state g' = PLAYING"
         "startTime g' = 1000" "maze g' = Some m" "ball g' = Some bl" "start m = (1, 1)"
         "(ball_x bl, ball_y bl) = cell_centre (start m) 40" "ball_vx bl = 0" "ball_vy bl = 0"
         "ball_radius bl = 14"
      unfolding i r by blast
    have "ball_x bl = 60" "ball_y bl = 60" using s(7) by (simp_all add: s(6) cell_centre_def)
    then show ?thesis using s by blast
  qed
  have b: "\<exists>h'. loop goal_game = Inr h' \<and> ball h' = Some ball_after \<and> state h' = GAMEOVER \<and>
      loop h' = Inr h' \<and> frames 3 h' = Inr h'"
  proof -
    have "\<exists>h' b'. loop goal_game = Inr h' \<and>
         checkCollision goal_maze
           (Ball_update (Ball_new 50 60 9) (fst (input goal_game) * CFG_acceleration)
              (snd (input goal_game) * CFG_acceleration))
           (cellSize goal_game) = Inr (goal_maze, b') \<and>
         maze h' = Some goal_maze \<and> ball h' = Some b' \<and> cellSize h' = cellSize goal_game \<and>
         (euclidean (ball_x b', ball_y b') (cell_centre (goal goal_maze) (cellSize goal_game))
            < 0.5 * cellSize goal_game \<longrightarrow> state h' = GAMEOVER) \<and>
         (\<not> euclidean (ball_x b', ball_y b') (cell_centre (goal goal_maze) (cellSize goal_game))
            < 0.5 * cellSize goal_game \<longrightarrow> state h' = PLAYING)"
      by (rule session_state_machine[THEN conjunct2, THEN conjunct1, rule_format])
         (simp add: p goal_maze_facts(1))
    then obtain h' where "\<exists>b'. loop goal_game = Inr h' \<and>
         checkCollision goal_maze
           (Ball_update (Ball_new 50 60 9) (fst (input goal_game) * CFG_acceleration)
              (snd (input goal_game) * CFG_acceleration))
           (cellSize goal_game) = Inr (goal_maze, b') \<and>
         maze h' = Some goal_maze \<and> ball h' = Some b' \<and> cellSize h' = cellSize goal_game \<and>
         (euclidean (ball_x b', ball_y b') (cell_centre (goal goal_maze) (cellSize goal_game))
            < 0.5 * cellSize goal_game \<longrightarrow> state h' = GAMEOVER) \<and>
         (\<not> euclidean (ball_x b', ball_y b') (cell_centre (goal goal_maze) (cellSize goal_game))
            < 0.5 * cellSize goal_game \<longrightarrow> state h' = PLAYING)" ..
    then obtain b' where hh: "loop goal_game = Inr h' \<and>
         checkCollision goal_maze
           (Ball_update (Ball_new 50 60 9) (fst (input goal_game) * CFG_acceleration)
              (snd (input goal_game) * CFG_acceleration))
           (cellSize goal_game) = Inr (goal_maze, b') \<and>
         maze h' = Some goal_maze \<and> ball h' = Some b' \<and> cellSize h' = cellSize goal_game \<and>
         (euclidean (ball_x b', ball_y b') (cell_centre (goal goal_maze) (cellSize goal_game))
            < 0.5 * cellSize goal_game \<longrightarrow> state h' = GAMEOVER) \<and>
         (\<not> euclidean (ball_x b', ball_y b') (cell_centre (goal goal_maze) (cellSize goal_game))
            < 0.5 * cellSize goal_game \<longrightarrow> state h' = PLAYING)" ..
    have h: "loop goal_game = Inr h'"
         "checkCollision goal_maze
            (Ball_update (Ball_new 50 60 9) (fst (1, 0) * CFG_acceleration)
               (snd (1, 0) * CFG_acceleration)) 40
          = Inr (goal_maze, b')"
         "ball h' = Some b'"
         "euclidean (ball_x b', ball_y b') (cell_centre (goal goal_maze) 40) < 0.5 * 40
            \<longrightarrow> state h' = GAMEOVER"
      using hh unfolding p by simp_all
    have h2: "checkCollision goal_maze
            (Ball_update (Ball_new 50 60 9) (1 * CFG_acceleration) (0 * CFG_acceleration)) 40
          = Inr (goal_maze, b')"
      using h(2) by (simp only: fst_conv snd_conv)
    have "b' = ball_after" using h2 unfolding goal_frame_ball goal_frame_collision by simp
    then have over: "state h' = GAMEOVER" and bl: "ball h' = Some ball_after"
      using h(3,4) goal_frame_distance by simp_all
    then have "state h' \<noteq> PLAYING" by simp
    then have "loop h' = Inr h' \<and> frames 3 h' = Inr h'"
      by (rule session_state_machine[THEN conjunct2, THEN conjunct2, rule_format])
    then have "loop h' = Inr h'" "frames 3 h' = Inr h'" by simp_all
    then show ?thesis using h(1) over bl by blast
  qed
  show ?thesis
    using a b random_source_first_choice goal_maze_facts(1) by (simp add: i p)
qed

lemma Maze_new_one_row: "Maze_new rnd cs 1 = Inl TypeError"
  by (simp add: Maze_new_def generate_def Let_def write_cell_def init_grid_apply)

text \<open>
  \<open>startGame\<close> does not always yield \<open>PLAYING\<close>: on a window 1500 wide and 150 high
  \<open>resize\<close> sets 15 columns and 1 row, the constructor of the maze then writes to the row
  1 that does not exist, and \<open>startGame\<close> raises before it assigns the state.
\<close>

theorem startGame_short_window_counterexample:
  "state short_game = IDLE \<and> game_cols short_game = 15 \<and> game_rows short_game = 1 \<and>
   startGame first_choice 1000 short_game = Inl TypeError"
  by (simp add: startGame_def short_game_def Maze_new_one_row)

end
